theory Spec2Isabelle
  imports Main "HOL-Library.Log_Nat" "HOL-Library.Word"
begin

section \<open>Poker tallies: the settlement calculations of the App component\<close>

text \<open>
  The program is one React component (\<^verbatim>\<open>App\<close>) whose handlers read the current
  state and call state setters. The amounts of the state (hand results, chip totals,
  side-bet points) are JavaScript numbers, that is IEEE binary64 numbers: hand results
  come from \<^verbatim>\<open>parseInt\<close> (with \<^verbatim>\<open>NaN\<close> replaced by 0) and totals are sums of those,
  each sum rounded to binary64. They are modelled as such (\<open>jsval\<close>), with the rounding
  written out, so that a sum is the exact integer sum only while it stays within
  \<open>2\<^sup>5\<^sup>3\<close>. The settings of a side-bet window (\<^verbatim>\<open>parseInt(text) || 0\<close>) are compared
  with 0 and 1 and counted down by one; they are integers.

  The two settlement functions \<^verbatim>\<open>calculateRowiePayouts\<close> and
  \<^verbatim>\<open>calculateBubblePayouts\<close> are modelled on integer points and integer chip counts.
\<close>

subsection \<open>Arrays\<close>

text \<open>
  \<^verbatim>\<open>a[i] = v\<close> on a JavaScript array: inside the array it overwrites, beyond its end it
  extends the array, and the positions skipped by the extension are holes. The first
  argument is the value that stands for a hole.
\<close>

definition array_set :: "'a \<Rightarrow> 'a list \<Rightarrow> nat \<Rightarrow> 'a \<Rightarrow> 'a list" where
  "array_set hole a i v =
     (if i < length a then a[i := v] else a @ replicate (i - length a) hole @ [v])"

subsection \<open>Numbers\<close>

text \<open>
  A JavaScript value of a \<^verbatim>\<open>number[]\<close>: a finite number, an infinity, \<^verbatim>\<open>NaN\<close>,
  \<^verbatim>\<open>undefined\<close>, or a hole of a sparse array (which reads as \<^verbatim>\<open>undefined\<close> but is
  skipped by \<^verbatim>\<open>reduce\<close>, \<^verbatim>\<open>forEach\<close>, \<^verbatim>\<open>map\<close> and \<^verbatim>\<open>filter\<close>). Finite numbers are
  rationals; the two zeros of IEEE arithmetic are identified (no divisor in the program is
  ever \<open>-0\<close>: the only divisors are a \<^verbatim>\<open>reduce\<close> that starts from \<open>+0\<close>, and the
  literal 2).
\<close>

datatype jsval = Num rat | PosInf | NegInf | NaN | Undefined | Hole

text \<open>The exponent \<open>e\<close> with \<open>2\<^sup>e \<le> |x| < 2\<^sup>e\<^sup>+\<^sup>1\<close>, for \<open>x \<noteq> 0\<close>.\<close>

definition binade :: "rat \<Rightarrow> int" where
  "binade x =
     (let a = fst (quotient_of \<bar>x\<bar>); b = snd (quotient_of \<bar>x\<bar>);
          e = bitlen a - bitlen b
      in if 2 powi e \<le> \<bar>x\<bar> then e else e - 1)"

definition round_to_even :: "rat \<Rightarrow> int" where
  "round_to_even x =
     (let n = \<lfloor>x\<rfloor>; d = x - of_int n
      in if d < 1 / 2 then n else if 1 / 2 < d then n + 1
         else if even n then n else n + 1)"

text \<open>
  Rounding of a rational to the nearest binary64 number, ties to the even significand:
  53 significant bits, exponents from -1022 (below which the spacing stays at
  \<open>2\<^sup>-\<^sup>1\<^sup>0\<^sup>7\<^sup>4\<close>) up to 1023.
\<close>

definition nearest64 :: "rat \<Rightarrow> rat" where
  "nearest64 x =
     (if x = 0 then 0
      else let e = max (binade x) (- 1022);
               ulp = 2 powi (e - 52)
           in sgn x * (of_int (round_to_even (\<bar>x\<bar> / ulp)) * ulp))"

definition binary64 :: "rat \<Rightarrow> jsval" where
  "binary64 x =
     (let y = nearest64 x
      in if 2 powi 1024 \<le> y then PosInf
         else if y \<le> - (2 powi 1024) then NegInf
         else Num y)"

text \<open>
  The operators \<^verbatim>\<open>+\<close>, unary \<^verbatim>\<open>-\<close>, \<^verbatim>\<open>*\<close> and \<^verbatim>\<open>/\<close> on numbers;
  \<^verbatim>\<open>undefined\<close> converts to \<^verbatim>\<open>NaN\<close>.
\<close>

fun js_add :: "jsval \<Rightarrow> jsval \<Rightarrow> jsval" where
  "js_add (Num a) (Num b) = binary64 (a + b)"
| "js_add (Num a) PosInf = PosInf"
| "js_add (Num a) NegInf = NegInf"
| "js_add PosInf (Num b) = PosInf"
| "js_add NegInf (Num b) = NegInf"
| "js_add PosInf PosInf = PosInf"
| "js_add NegInf NegInf = NegInf"
| "js_add _ _ = NaN"

fun js_neg :: "jsval \<Rightarrow> jsval" where
  "js_neg (Num a) = Num (- a)"
| "js_neg PosInf = NegInf"
| "js_neg NegInf = PosInf"
| "js_neg _ = NaN"

fun js_mul :: "jsval \<Rightarrow> jsval \<Rightarrow> jsval" where
  "js_mul (Num a) (Num b) = binary64 (a * b)"
| "js_mul (Num a) PosInf = (if a = 0 then NaN else if 0 < a then PosInf else NegInf)"
| "js_mul (Num a) NegInf = (if a = 0 then NaN else if 0 < a then NegInf else PosInf)"
| "js_mul PosInf (Num b) = (if b = 0 then NaN else if 0 < b then PosInf else NegInf)"
| "js_mul NegInf (Num b) = (if b = 0 then NaN else if 0 < b then NegInf else PosInf)"
| "js_mul PosInf PosInf = PosInf"
| "js_mul PosInf NegInf = NegInf"
| "js_mul NegInf PosInf = NegInf"
| "js_mul NegInf NegInf = PosInf"
| "js_mul _ _ = NaN"

fun js_div :: "jsval \<Rightarrow> jsval \<Rightarrow> jsval" where
  "js_div (Num a) (Num b) =
     (if b = 0 then (if a = 0 then NaN else if 0 < a then PosInf else NegInf)
      else binary64 (a / b))"
| "js_div (Num a) PosInf = Num 0"
| "js_div (Num a) NegInf = Num 0"
| "js_div PosInf (Num b) = (if 0 \<le> b then PosInf else NegInf)"
| "js_div NegInf (Num b) = (if 0 \<le> b then NegInf else PosInf)"
| "js_div _ _ = NaN"

text \<open>
  \<^verbatim>\<open>Math.round\<close>: the nearest integer, a tie going towards \<open>+\<infinity>\<close>; infinities and
  \<^verbatim>\<open>NaN\<close> are returned as they are.
\<close>

fun Math_round :: "jsval \<Rightarrow> jsval" where
  "Math_round (Num x) = Num (of_int \<lfloor>x + 1 / 2\<rfloor>)"
| "Math_round PosInf = PosInf"
| "Math_round NegInf = NegInf"
| "Math_round _ = NaN"

text \<open>
  \<^verbatim>\<open>Math.max(...a)\<close>: the largest argument, \<open>-\<infinity>\<close> of no arguments, and \<^verbatim>\<open>NaN\<close> as soon
  as one argument is not a number.
\<close>

fun js_max :: "jsval \<Rightarrow> jsval \<Rightarrow> jsval" where
  "js_max (Num a) (Num b) = Num (max a b)"
| "js_max (Num a) PosInf = PosInf"
| "js_max (Num a) NegInf = Num a"
| "js_max PosInf (Num b) = PosInf"
| "js_max NegInf (Num b) = Num b"
| "js_max PosInf PosInf = PosInf"
| "js_max PosInf NegInf = PosInf"
| "js_max NegInf PosInf = PosInf"
| "js_max NegInf NegInf = NegInf"
| "js_max _ _ = NaN"

definition Math_max :: "jsval list \<Rightarrow> jsval" where
  "Math_max a = foldl js_max NegInf a"

text \<open>\<^verbatim>\<open>x === y\<close> on such values: \<^verbatim>\<open>NaN\<close> equals nothing, not even itself.\<close>

definition strict_equal :: "jsval \<Rightarrow> jsval \<Rightarrow> bool" where
  "strict_equal x y \<longleftrightarrow> x = y \<and> x \<noteq> NaN"

definition number :: "int \<Rightarrow> jsval" where
  "number i = Num (of_int i)"

text \<open>
  Reading and iterating an array that may have holes: \<^verbatim>\<open>a[i]\<close> is \<^verbatim>\<open>undefined\<close> at a
  hole and beyond the end; \<^verbatim>\<open>[...a]\<close> copies the array with \<^verbatim>\<open>undefined\<close> in place of
  the holes; \<^verbatim>\<open>forEach\<close>, \<^verbatim>\<open>reduce\<close> and \<^verbatim>\<open>filter\<close> visit the elements that are not
  holes, with their indices; \<^verbatim>\<open>map\<close> leaves the holes where they are.
\<close>

definition element :: "jsval list \<Rightarrow> nat \<Rightarrow> jsval" where
  "element a i = (if i < length a \<and> a ! i \<noteq> Hole then a ! i else Undefined)"

definition spread :: "jsval list \<Rightarrow> jsval list" where
  "spread a = map (\<lambda>v. if v = Hole then Undefined else v) a"

definition entries :: "jsval list \<Rightarrow> (jsval \<times> nat) list" where
  "entries a = filter (\<lambda>(v, i). v \<noteq> Hole) (zip a [0..<length a])"

definition array_map :: "(jsval \<Rightarrow> nat \<Rightarrow> jsval) \<Rightarrow> jsval list \<Rightarrow> jsval list" where
  "array_map f a = map (\<lambda>(v, i). if v = Hole then Hole else f v i) (zip a [0..<length a])"

subsection \<open>Proportional pot: calculateRowiePayouts\<close>

text \<open>
  The function reads \<^verbatim>\<open>numPlayers\<close> and \<^verbatim>\<open>rowieSettings.potAmount\<close> from the component
  state; they are its first two arguments here. A hole of the returned array is written
  as the \<^verbatim>\<open>undefined\<close> it reads as.
\<close>

definition rowie_share :: "int \<Rightarrow> int \<Rightarrow> int \<Rightarrow> jsval" where
  "rowie_share points totalPoints potSize =
     Math_round (js_mul (js_div (number points) (number totalPoints)) (number potSize))"

definition calculateRowiePayouts :: "nat \<Rightarrow> int \<Rightarrow> int list \<Rightarrow> jsval list" where
  "calculateRowiePayouts numPlayers potAmount rowiePoints =
     (let payouts = replicate numPlayers (Num 0);
          totalPoints = foldl (\<lambda>sum points. sum + points) 0 rowiePoints;
          potSize = int numPlayers * potAmount
      in foldl (\<lambda>payouts (points, idx).
                  if 0 < points
                  then array_set Undefined payouts idx (rowie_share points totalPoints potSize)
                  else payouts)
           payouts (zip rowiePoints [0..<length rowiePoints]))"

subsection \<open>Ranked settlement: calculateBubblePayouts\<close>

definition BUBBLE_AMOUNT :: int where
  "BUBBLE_AMOUNT = 10"

text \<open>The objects \<^verbatim>\<open>{ chips, index }\<close> of \<^verbatim>\<open>playerChips\<close>.\<close>

record PlayerChip =
  pc_chips :: int
  pc_index :: nat

text \<open>
  \<^verbatim>\<open>groupedPlayers\<close> is an object keyed by chip amount. It is modelled as an association
  list in insertion order. The reducer appends the player to the group of its key, creating
  the group when the key is new.
\<close>

type_synonym groups = "(int \<times> PlayerChip list) list"

definition group_of :: "groups \<Rightarrow> int \<Rightarrow> PlayerChip list option" where
  "group_of groups key = map_of groups key"

definition add_to_group :: "groups \<Rightarrow> PlayerChip \<Rightarrow> groups" where
  "add_to_group groups player =
     (let key = pc_chips player in
      case group_of groups key of
        None \<Rightarrow> groups @ [(key, [player])]
      | Some g \<Rightarrow> map (\<lambda>(k, ps). if k = key then (k, ps @ [player]) else (k, ps)) groups)"

text \<open>
  \<^verbatim>\<open>groupedPlayers[amount]\<close>. The amounts looked up are keys of the object, so the group
  is always there (lemma \<open>grouped_players_at\<close>).
\<close>

definition players_at :: "groups \<Rightarrow> int \<Rightarrow> PlayerChip list" where
  "players_at groups amount = (case group_of groups amount of None \<Rightarrow> [] | Some g \<Rightarrow> g)"

definition count_groups :: "groups \<Rightarrow> int list \<Rightarrow> nat" where
  "count_groups groups amounts =
     foldl (\<lambda>sum amount. sum + length (players_at groups amount)) 0 amounts"

text \<open>
  \<^verbatim>\<open>Object.keys(groupedPlayers).map(Number).sort((a, b) => b - a)\<close>: the keys are
  distinct, so whatever order \<^verbatim>\<open>Object.keys\<close> lists them in, the result is the chip
  amounts from the largest to the smallest.
\<close>

definition sort_descending :: "int list \<Rightarrow> int list" where
  "sort_descending keys = rev (sort keys)"

definition rank_payout :: "groups \<Rightarrow> int list \<Rightarrow> nat \<Rightarrow> int" where
  "rank_payout groups sortedChipAmounts rank =
     (let playersAbove = count_groups groups (take rank sortedChipAmounts);
          playersBelow = count_groups groups (drop (rank + 1) sortedChipAmounts)
      in (int playersBelow * BUBBLE_AMOUNT) - (int playersAbove * BUBBLE_AMOUNT))"

text \<open>
  The body of the outer \<^verbatim>\<open>forEach\<close>. A write beyond the end of \<^verbatim>\<open>payouts\<close> extends
  it; the filler 0 stands for the holes, which are gone when the function returns: every
  index of \<^verbatim>\<open>finalChips\<close> is written (lemma \<open>bubble_payouts_eq\<close>).
\<close>

definition pay_rank :: "groups \<Rightarrow> int list \<Rightarrow> int list \<Rightarrow> int \<times> nat \<Rightarrow> int list" where
  "pay_rank groups sortedChipAmounts payouts ar =
     (let chipAmount = fst ar; rank = snd ar;
          playersAtThisRank = players_at groups chipAmount;
          payoutPerPlayer = rank_payout groups sortedChipAmounts rank
      in foldl (\<lambda>p player. array_set 0 p (pc_index player) payoutPerPlayer)
           payouts playersAtThisRank)"

definition calculateBubblePayouts :: "nat \<Rightarrow> int list \<Rightarrow> int list" where
  "calculateBubblePayouts numPlayers finalChips =
     (let payouts = replicate numPlayers 0;
          playerChips = map (\<lambda>(chips, index). \<lparr>pc_chips = chips, pc_index = index\<rparr>)
                          (zip finalChips [0..<length finalChips]);
          groupedPlayers = foldl add_to_group [] playerChips;
          sortedChipAmounts = sort_descending (map fst groupedPlayers)
      in foldl (pay_rank groupedPlayers sortedChipAmounts) payouts
           (zip sortedChipAmounts [0..<length sortedChipAmounts]))"

text \<open>
  The settlement in the words of the specification: a player is paid the unit amount by
  every player with strictly fewer chips and pays it to every player with strictly more.
\<close>

definition playersAbove :: "int list \<Rightarrow> int \<Rightarrow> nat" where
  "playersAbove finalChips v = length (filter (\<lambda>x. v < x) finalChips)"

definition playersBelow :: "int list \<Rightarrow> int \<Rightarrow> nat" where
  "playersBelow finalChips v = length (filter (\<lambda>x. x < v) finalChips)"

definition bubble_share :: "int list \<Rightarrow> int \<Rightarrow> int" where
  "bubble_share finalChips v =
     BUBBLE_AMOUNT * (int (playersBelow finalChips v) - int (playersAbove finalChips v))"


subsection \<open>Strings\<close>

text \<open>
  A JavaScript string is a sequence of 16-bit code units. \<^verbatim>\<open>charAt(i)\<close> is the string of
  the one code unit at position \<open>i\<close>, or the empty string when there is none.
  \<^verbatim>\<open>trim\<close> removes leading and trailing white space and line terminators, so a name
  trims to the empty string exactly when all its code units are such.

  \<^verbatim>\<open>toUpperCase\<close> is the case mapping of the Unicode character database, which is not
  part of the program (it maps \<open>a\<close> to \<open>A\<close>, e-acute to E-acute, and sharp s to the two
  letters \<open>SS\<close>). The handlers that call it take it as their first argument.
\<close>

type_synonym jsstring = "16 word list"

definition charAt :: "jsstring \<Rightarrow> nat \<Rightarrow> jsstring" where
  "charAt s i = (if i < length s then [s ! i] else [])"

definition white_space :: "16 word \<Rightarrow> bool" where
  "white_space c \<longleftrightarrow>
     c \<in> {0x0009, 0x000A, 0x000B, 0x000C, 0x000D, 0x0020, 0x00A0, 0x1680,
          0x2028, 0x2029, 0x202F, 0x205F, 0x3000, 0xFEFF}
     \<or> (0x2000 \<le> c \<and> c \<le> 0x200A)"

definition trims_to_empty :: "jsstring \<Rightarrow> bool" where
  "trims_to_empty s = list_all white_space s"

subsection \<open>The component state\<close>

record RowieSettings =
  startHand :: nat
  numHands :: int
  potAmount :: int
  currentHand :: int
  isComplete :: bool

record Hand =
  playerResults :: "jsval list"
  date :: jsstring

text \<open>
  \<^verbatim>\<open>CompletedRowie\<close>; its fields \<^verbatim>\<open>startHand\<close> and \<^verbatim>\<open>value\<close> are renamed, the first
  because \<^verbatim>\<open>RowieSettings\<close> has a field of that name.
\<close>

record CompletedRowie =
  rowieNumber :: nat
  firstHand :: nat
  endHand :: nat
  rowieValue :: int
  winners :: "jsstring list"

text \<open>
  \<^verbatim>\<open>GameRound\<close>, a finished game in the history. Its fields are prefixed. Left out: \<^verbatim>\<open>rowiePayouts\<close> and \<^verbatim>\<open>bubblePayouts\<close>, which
  \<^verbatim>\<open>saveToHistory\<close> computes with the two settlement functions and which no handler
  reads back.
\<close>

record GameRound =
  round_date :: jsstring
  round_playerNames :: "jsstring list"
  round_finalChips :: "jsval list"
  round_rowiePoints :: "jsval list"
  round_rowieSettings :: RowieSettings
  round_hands :: "Hand list"
  round_completedRowies :: "CompletedRowie list"

text \<open>
  The state variables of \<^verbatim>\<open>App\<close> that the handlers below read or write. Left out:
  \<^verbatim>\<open>selectedHistory\<close> (which saved round the history screen shows) and
  \<^verbatim>\<open>explicitlyEntered\<close> (whether an input box shows its number).
\<close>

record App =
  step :: nat
  numPlayers :: nat
  playerNames :: "jsstring list"
  chips :: "jsval list"
  rowie :: "jsval list"
  rowieSettings :: RowieSettings
  history :: "GameRound list"
  hands :: "Hand list"
  currentHandIndex :: int
  handResults :: "jsval list"
  showSummary :: bool
  mercyApplied :: bool
  preMercyChips :: "jsval list"
  completedRowies :: "CompletedRowie list"

definition defaultRowieSettings :: RowieSettings where
  "defaultRowieSettings =
     \<lparr>startHand = 0, numHands = 0, potAmount = 5, currentHand = 0, isComplete = False\<rparr>"

text \<open>The initial values given to \<^verbatim>\<open>useState\<close>.\<close>

definition initialApp :: App where
  "initialApp =
     \<lparr>step = 1, numPlayers = 2, playerNames = replicate 2 [],
      chips = replicate 2 (Num 0), rowie = replicate 2 (Num 0),
      rowieSettings = defaultRowieSettings, history = [],
      hands = [], currentHandIndex = - 1, handResults = replicate 2 (Num 0),
      showSummary = False, mercyApplied = False, preMercyChips = [],
      completedRowies = []\<rparr>"

subsection \<open>Handlers\<close>

text \<open>
  A handler either returns the next state or stops with an error:
  \<^item> \<open>Alert title message\<close>: the handler called \<^verbatim>\<open>Alert.alert(title, message)\<close> and
    returned before calling any state setter (the message is empty when the call has
    none);
  \<^item> \<open>TypeError\<close>: a property of \<^verbatim>\<open>undefined\<close> is read (an index beyond an array).
  The second does not happen while the per-player arrays all have \<^verbatim>\<open>numPlayers\<close>
  entries (lemmas \<open>fire_in_game\<close> and \<open>run_in_game\<close>).
\<close>

datatype error = Alert string string | TypeError

definition handleNumPlayers :: "nat \<Rightarrow> App \<Rightarrow> App" where
  "handleNumPlayers n s =
     s\<lparr>numPlayers := n, playerNames := replicate n [], chips := replicate n (Num 0),
       rowie := replicate n (Num 0), handResults := replicate n (Num 0), step := 2\<rparr>"

text \<open>\<^verbatim>\<open>newNames[idx] = name\<close>; the index comes from a row of the name screen.\<close>

definition handlePlayerName :: "nat \<Rightarrow> jsstring \<Rightarrow> App \<Rightarrow> App" where
  "handlePlayerName idx name s = s\<lparr>playerNames := array_set [] (playerNames s) idx name\<rparr>"

definition handleNamesContinue :: "App \<Rightarrow> error + App" where
  "handleNamesContinue s =
     (if list_ex trims_to_empty (playerNames s)
      then Inl (Alert ''Please enter all player names.'' [])
      else Inr (s\<lparr>chips := replicate (numPlayers s) (Num 0),
                   rowie := replicate (numPlayers s) (Num 0),
                   rowieSettings := defaultRowieSettings,
                   hands := [], currentHandIndex := - 1, completedRowies := [],
                   handResults := replicate (numPlayers s) (Num 0),
                   showSummary := False, mercyApplied := False, step := 3\<rparr>))"

text \<open>
  \<^verbatim>\<open>handleRowieSettings(field, value)\<close> is called with the fields \<^verbatim>\<open>numHands\<close> and
  \<^verbatim>\<open>potAmount\<close> and the value \<^verbatim>\<open>parseInt(text) || 0\<close>.
\<close>

datatype settings_field = Field_numHands | Field_potAmount

fun handleRowieSettings :: "settings_field \<Rightarrow> int \<Rightarrow> App \<Rightarrow> App" where
  "handleRowieSettings Field_numHands v s =
     s\<lparr>rowieSettings := (rowieSettings s)\<lparr>numHands := v\<rparr>\<rparr>"
| "handleRowieSettings Field_potAmount v s =
     s\<lparr>rowieSettings := (rowieSettings s)\<lparr>potAmount := v\<rparr>\<rparr>"

definition handleNewRowie :: "App \<Rightarrow> error + App" where
  "handleNewRowie s =
     (if 0 < currentHand (rowieSettings s)
      then Inl (Alert ''Please complete the current Rowie before starting a new one.'' [])
      else Inr (s\<lparr>step := 4\<rparr>))"

text \<open>
  After the check the handler shows a dialog with the buttons Cancel and Start Rowie; the
  argument \<open>start\<close> tells which one the user presses. Cancel has no callback.
\<close>

definition handleRowieSettingsContinue :: "bool \<Rightarrow> App \<Rightarrow> error + App" where
  "handleRowieSettingsContinue start s =
     (if numHands (rowieSettings s) \<le> 0 \<or> potAmount (rowieSettings s) \<le> 0
      then Inl (Alert ''Please fill in all Rowie settings.'' [])
      else if start
      then Inr (s\<lparr>rowieSettings := (rowieSettings s)
                     \<lparr>startHand := length (hands s),
                      currentHand := numHands (rowieSettings s),
                      isComplete := False\<rparr>,
                   step := 3\<rparr>)
      else Inr s)"

text \<open>
  The text of an input box as \<^verbatim>\<open>handleHandResult\<close> tells it apart: empty, a lone minus
  sign, a text that \<^verbatim>\<open>parseInt\<close> reads as the integer \<open>numValue\<close>, and any other text
  (\<^verbatim>\<open>NaN\<close>). \<^verbatim>\<open>parseInt\<close> returns the binary64 number nearest to the integer it reads,
  an infinity when that is beyond the range.
\<close>

datatype chip_text = Empty_text | Minus_text | Number_text int | Other_text

fun entered_value :: "chip_text \<Rightarrow> jsval" where
  "entered_value Empty_text = Num 0"
| "entered_value Minus_text = Num 0"
| "entered_value (Number_text numValue) = binary64 (of_int numValue)"
| "entered_value Other_text = Num 0"

definition handleHandResult :: "nat \<Rightarrow> chip_text \<Rightarrow> App \<Rightarrow> App" where
  "handleHandResult idx text s =
     (let newResults = spread (handResults s)
      in s\<lparr>handResults := array_set Hole newResults idx (entered_value text)\<rparr>)"

definition toggleNegative :: "nat \<Rightarrow> App \<Rightarrow> App" where
  "toggleNegative idx s =
     (let newResults = spread (handResults s)
      in s\<lparr>handResults := array_set Hole newResults idx (js_neg (element newResults idx))\<rparr>)"

text \<open>\<^verbatim>\<open>xs.map((x, idx) => x + handResults[idx])\<close>.\<close>

definition add_results :: "jsval list \<Rightarrow> jsval list \<Rightarrow> jsval list" where
  "add_results xs results = array_map (\<lambda>x idx. js_add x (element results idx)) xs"

text \<open>
  \<^verbatim>\<open>result.playerResults.forEach((amount, playerIdx) => { rowieTotals[playerIdx] += amount })\<close>;
  beyond \<^verbatim>\<open>rowieTotals\<close> the sum is \<^verbatim>\<open>NaN\<close>, and the write extends the array.
\<close>

definition add_hand :: "jsval list \<Rightarrow> Hand \<Rightarrow> jsval list" where
  "add_hand rowieTotals result =
     foldl (\<lambda>totals (amount, playerIdx).
              array_set Hole totals playerIdx (js_add (element totals playerIdx) amount))
       rowieTotals (entries (playerResults result))"

definition sum_results :: "jsval list \<Rightarrow> Hand list \<Rightarrow> jsval list" where
  "sum_results rowieTotals rowieResults = foldl add_hand rowieTotals rowieResults"

text \<open>
  The indices of the players whose total is the maximum, then their names' first
  characters in upper case; a name missing at such an index is a \<^verbatim>\<open>TypeError\<close>.
\<close>

definition first_place :: "jsval list \<Rightarrow> nat list" where
  "first_place rowieTotals =
     (let maxPoints = Math_max (spread rowieTotals)
      in map snd (filter (\<lambda>(points, idx). strict_equal points maxPoints)
                    (entries rowieTotals)))"

definition winner_initials ::
  "(jsstring \<Rightarrow> jsstring) \<Rightarrow> jsstring list \<Rightarrow> nat list \<Rightarrow> error + jsstring list" where
  "winner_initials toUpperCase names idxs =
     (if list_all (\<lambda>idx. idx < length names) idxs
      then Inr (map (\<lambda>idx. toUpperCase (charAt (names ! idx) 0)) idxs)
      else Inl TypeError)"

text \<open>
  The branch of \<^verbatim>\<open>handleSubmitHand\<close> taken when the submitted hand is the last of the
  window: the record appended to \<^verbatim>\<open>completedRowies\<close>.
\<close>

definition complete_rowie ::
  "(jsstring \<Rightarrow> jsstring) \<Rightarrow> App \<Rightarrow> Hand \<Rightarrow> error + CompletedRowie" where
  "complete_rowie toUpperCase s newHand =
     (let rowieResults = drop (startHand (rowieSettings s)) (hands s) @ [newHand];
          rowieTotals = sum_results (replicate (numPlayers s) (Num 0)) rowieResults
      in case winner_initials toUpperCase (playerNames s) (first_place rowieTotals) of
           Inl e \<Rightarrow> Inl e
         | Inr ws \<Rightarrow>
             Inr \<lparr>rowieNumber = length (completedRowies s) + 1,
                  firstHand = startHand (rowieSettings s) + 1,
                  endHand = length (hands s) + 1,
                  rowieValue = potAmount (rowieSettings s),
                  winners = ws\<rparr>)"

text \<open>\<^verbatim>\<open>prev.currentHand - 1\<close>, a binary64 subtraction.\<close>

definition minus_one :: "int \<Rightarrow> int" where
  "minus_one c = \<lfloor>nearest64 (of_int c - 1)\<rfloor>"

text \<open>
  The part of \<^verbatim>\<open>handleSubmitHand\<close> that follows the update of the chip totals: the
  window. \<open>s\<close> is the state the handler was called in, \<open>s1\<close> the state with the new hand
  and the new totals.
\<close>

definition update_rowie ::
  "(jsstring \<Rightarrow> jsstring) \<Rightarrow> App \<Rightarrow> Hand \<Rightarrow> App \<Rightarrow> error + App" where
  "update_rowie toUpperCase s newHand s1 =
     (if 0 < currentHand (rowieSettings s)
      then (let newRowie = add_results (rowie s) (handResults s) in
            if currentHand (rowieSettings s) = 1
            then (case complete_rowie toUpperCase s newHand of
                    Inl e \<Rightarrow> Inl e
                  | Inr newCompletedRowie \<Rightarrow>
                      Inr (s1\<lparr>rowie := newRowie,
                              completedRowies := completedRowies s @ [newCompletedRowie],
                              rowieSettings := (rowieSettings s)
                                \<lparr>currentHand := 0, isComplete := True\<rparr>\<rparr>))
            else Inr (s1\<lparr>rowie := newRowie,
                         rowieSettings := (rowieSettings s)
                           \<lparr>currentHand := minus_one (currentHand (rowieSettings s))\<rparr>\<rparr>))
      else if isComplete (rowieSettings s)
      then Inr (s1\<lparr>rowieSettings := (rowieSettings s)\<lparr>isComplete := False\<rparr>\<rparr>)
      else Inr s1)"

text \<open>
  \<^verbatim>\<open>handleSubmitHand\<close>; \<open>now\<close> is the text of \<^verbatim>\<open>new Date().toLocaleString()\<close>.
\<close>

definition handleSubmitHand :: "(jsstring \<Rightarrow> jsstring) \<Rightarrow> jsstring \<Rightarrow> App \<Rightarrow> error + App" where
  "handleSubmitHand toUpperCase now s =
     (let total = foldl (\<lambda>sum (result, idx). js_add sum result) (Num 0)
                    (entries (handResults s)) in
      if \<not> strict_equal total (Num 0)
      then Inl (Alert ''Error'' ''Hand results must sum to zero.'')
      else
        let newHand = \<lparr>playerResults = spread (handResults s), date = now\<rparr>;
            newHands = hands s @ [newHand];
            newChips = add_results (chips s) (handResults s)
        in case update_rowie toUpperCase s newHand
                  (s\<lparr>hands := newHands,
                     currentHandIndex := int (length newHands) - 1,
                     chips := newChips\<rparr>) of
             Inl e \<Rightarrow> Inl e
           | Inr s2 \<Rightarrow> Inr (s2\<lparr>handResults := replicate (numPlayers s) (Num 0)\<rparr>))"

text \<open>Navigation between hands; \<^verbatim>\<open>hands[i]\<close> beyond the list is \<^verbatim>\<open>undefined\<close>.\<close>

definition hand_at :: "Hand list \<Rightarrow> int \<Rightarrow> error + Hand" where
  "hand_at hs i = (if 0 \<le> i \<and> i < int (length hs) then Inr (hs ! nat i) else Inl TypeError)"

definition show_hand :: "int \<Rightarrow> App \<Rightarrow> error + App" where
  "show_hand i s =
     (case hand_at (hands s) i of
        Inl e \<Rightarrow> Inl e
      | Inr h \<Rightarrow> Inr (s\<lparr>currentHandIndex := i, handResults := playerResults h\<rparr>))"

definition handlePreviousHand :: "App \<Rightarrow> error + App" where
  "handlePreviousHand s =
     (if 0 < currentHandIndex s then show_hand (currentHandIndex s - 1) s else Inr s)"

definition handleNextHand :: "App \<Rightarrow> error + App" where
  "handleNextHand s =
     (if currentHandIndex s < int (length (hands s)) - 1
      then show_hand (currentHandIndex s + 1) s else Inr s)"

definition handleCurrentHand :: "App \<Rightarrow> error + App" where
  "handleCurrentHand s = show_hand (int (length (hands s)) - 1) s"

text \<open>
  The running total that \<^verbatim>\<open>renderGamePlay\<close> shows beside player \<open>idx\<close>: the loop
  \<^verbatim>\<open>for (let i = 0; i <= currentHandIndex; i++) runningTotal += hands[i].playerResults[idx]\<close>.
\<close>

fun running_loop :: "Hand list \<Rightarrow> nat \<Rightarrow> nat \<Rightarrow> nat \<Rightarrow> jsval \<Rightarrow> error + jsval" where
  "running_loop hs idx i 0 runningTotal = Inr runningTotal"
| "running_loop hs idx i (Suc todo) runningTotal =
     (if length hs \<le> i then Inl TypeError
      else running_loop hs idx (i + 1) todo
             (js_add runningTotal (element (playerResults (hs ! i)) idx)))"

definition runningTotal :: "App \<Rightarrow> nat \<Rightarrow> error + jsval" where
  "runningTotal s idx =
     (if 0 \<le> currentHandIndex s
      then running_loop (hands s) idx 0 (nat (currentHandIndex s + 1)) (Num 0)
      else Inr (Num 0))"

subsection \<open>Reduction: handleMercyCalculation\<close>

text \<open>
  \<^verbatim>\<open>(chip * 0.05) / 2 / 2\<close>: the literal 0.05 is the binary64 number nearest to 5/100;
  each operation rounds its result.
\<close>

definition mercyAmount :: "jsval \<Rightarrow> jsval" where
  "mercyAmount chip = js_div (js_div (js_mul chip (binary64 (5 / 100))) (Num 2)) (Num 2)"

definition handleMercyCalculation :: "App \<Rightarrow> App" where
  "handleMercyCalculation s =
     (let newChips = array_map (\<lambda>chip idx. Math_round (mercyAmount chip)) (chips s)
      in s\<lparr>chips := newChips, mercyApplied := True\<rparr>)"

definition handleFinish :: "App \<Rightarrow> error + App" where
  "handleFinish s =
     (if 0 < currentHand (rowieSettings s)
      then Inl (Alert ''Please complete the current Rowie before ending the game.'' [])
      else Inr (s\<lparr>preMercyChips := spread (chips s), showSummary := True\<rparr>))"

subsection \<open>The history of finished games\<close>

text \<open>
  \<^verbatim>\<open>saveToHistory\<close> puts the game in front of the history; \<open>now\<close> is the text of
  \<^verbatim>\<open>new Date().toLocaleString()\<close>. \<^verbatim>\<open>handleSaveAndExit\<close>, the button of the summary
  once the reduction is applied, saves the game and resets the state to the first screen.
  \<^verbatim>\<open>loadHistoryRound\<close>, a tap on a round of the history list, loads the round into the
  state, and \<^verbatim>\<open>handleReturnToGame\<close>, the button Return to Current Game of the history
  screen, shows the game screen again.
\<close>

definition saveToHistory :: "jsstring \<Rightarrow> App \<Rightarrow> App" where
  "saveToHistory now s =
     (let newRound = \<lparr>round_date = now,
                      round_playerNames = playerNames s,
                      round_finalChips = spread (chips s),
                      round_rowiePoints = spread (rowie s),
                      round_rowieSettings = rowieSettings s,
                      round_hands = hands s,
                      round_completedRowies = completedRowies s\<rparr>
      in s\<lparr>history := newRound # history s\<rparr>)"

definition handleSaveAndExit :: "jsstring \<Rightarrow> App \<Rightarrow> App" where
  "handleSaveAndExit now s =
     (saveToHistory now s)
       \<lparr>showSummary := False, mercyApplied := False, step := 1, numPlayers := 2,
        playerNames := replicate 2 [], chips := replicate 2 (Num 0),
        rowie := replicate 2 (Num 0), rowieSettings := defaultRowieSettings,
        hands := [], currentHandIndex := - 1\<rparr>"

definition loadHistoryRound :: "GameRound \<Rightarrow> App \<Rightarrow> App" where
  "loadHistoryRound r s =
     s\<lparr>playerNames := round_playerNames r, chips := round_finalChips r,
       rowie := round_rowiePoints r, rowieSettings := round_rowieSettings r,
       hands := round_hands r, step := 5\<rparr>"

definition handleReturnToGame :: "App \<Rightarrow> App" where
  "handleReturnToGame s =
     s\<lparr>step := 3, handResults := replicate (numPlayers s) (Num 0)\<rparr>"

subsection \<open>The screens: which handler can be called when\<close>

text \<open>
  The events of the set-up screens and of the game screen. The render functions decide
  which of them the user can cause: \<^verbatim>\<open>renderPlayerCount\<close> is shown at step 1 with one
  button for each count from \<^verbatim>\<open>MIN_PLAYERS\<close> to \<^verbatim>\<open>MAX_PLAYERS\<close>, \<^verbatim>\<open>renderPlayerNames\<close>
  at step 2 with one input for each name, and \<^verbatim>\<open>renderGamePlay\<close> at steps 3 and 4, where
  it shows the summary if \<^verbatim>\<open>showSummary\<close> is set, else the window settings at step 4,
  else one row for each name, the submit button, the navigation buttons (when there are
  hands, each disabled at its end of the list) and the New Rowie button.

  The buttons that leave these screens (End Game and the summary, the history list and
  the bottom menu) are not events of a run; the handlers behind the summary and the
  history are the functions of the two preceding subsections.
\<close>

definition MIN_PLAYERS :: nat where
  "MIN_PLAYERS = 2"

definition MAX_PLAYERS :: nat where
  "MAX_PLAYERS = 7"

datatype event =
    NumPlayers nat
  | PlayerName nat jsstring
  | NamesContinue
  | HandResult nat chip_text
  | ToggleNegative nat
  | SubmitHand jsstring
  | PreviousHand
  | NextHand
  | CurrentHand
  | NewRowie
  | RowieSettings settings_field int
  | RowieSettingsContinue bool

definition game_rows :: "App \<Rightarrow> bool" where
  "game_rows s = (step s = 3 \<and> \<not> showSummary s)"

definition settings_form :: "App \<Rightarrow> bool" where
  "settings_form s = (step s = 4 \<and> \<not> showSummary s)"

fun offered :: "event \<Rightarrow> App \<Rightarrow> bool" where
  "offered (NumPlayers n) s = (step s = 1 \<and> MIN_PLAYERS \<le> n \<and> n \<le> MAX_PLAYERS)"
| "offered (PlayerName idx name) s = (step s = 2 \<and> idx < length (playerNames s))"
| "offered NamesContinue s = (step s = 2)"
| "offered (HandResult idx text) s = (game_rows s \<and> idx < length (playerNames s))"
| "offered (ToggleNegative idx) s = (game_rows s \<and> idx < length (playerNames s))"
| "offered (SubmitHand now) s = game_rows s"
| "offered PreviousHand s =
     (game_rows s \<and> 0 < length (hands s) \<and> \<not> currentHandIndex s \<le> 0)"
| "offered NextHand s =
     (game_rows s \<and> 0 < length (hands s) \<and>
      \<not> int (length (hands s)) - 1 \<le> currentHandIndex s)"
| "offered CurrentHand s =
     (game_rows s \<and> 0 < length (hands s) \<and>
      currentHandIndex s < int (length (hands s)) - 1)"
| "offered NewRowie s = game_rows s"
| "offered (RowieSettings field v) s = settings_form s"
| "offered (RowieSettingsContinue start) s = settings_form s"

fun fire :: "(jsstring \<Rightarrow> jsstring) \<Rightarrow> event \<Rightarrow> App \<Rightarrow> error + App" where
  "fire toUpperCase (NumPlayers n) s = Inr (handleNumPlayers n s)"
| "fire toUpperCase (PlayerName idx name) s = Inr (handlePlayerName idx name s)"
| "fire toUpperCase NamesContinue s = handleNamesContinue s"
| "fire toUpperCase (HandResult idx text) s = Inr (handleHandResult idx text s)"
| "fire toUpperCase (ToggleNegative idx) s = Inr (toggleNegative idx s)"
| "fire toUpperCase (SubmitHand now) s = handleSubmitHand toUpperCase now s"
| "fire toUpperCase PreviousHand s = handlePreviousHand s"
| "fire toUpperCase NextHand s = handleNextHand s"
| "fire toUpperCase CurrentHand s = handleCurrentHand s"
| "fire toUpperCase NewRowie s = handleNewRowie s"
| "fire toUpperCase (RowieSettings field v) s = Inr (handleRowieSettings field v s)"
| "fire toUpperCase (RowieSettingsContinue start) s = handleRowieSettingsContinue start s"

text \<open>
  A run of the component: an event that is not offered does not happen, an alert leaves
  the state as it is, any other error ends the run.
\<close>

fun run :: "(jsstring \<Rightarrow> jsstring) \<Rightarrow> event list \<Rightarrow> App \<Rightarrow> error + App" where
  "run toUpperCase [] s = Inr s"
| "run toUpperCase (ev # evs) s =
     (if offered ev s
      then (case fire toUpperCase ev s of
              Inr s' \<Rightarrow> run toUpperCase evs s'
            | Inl (Alert title message) \<Rightarrow> run toUpperCase evs s
            | Inl e \<Rightarrow> Inl e)
      else run toUpperCase evs s)"

subsection \<open>What the specification says of the state\<close>

text \<open>
  The running total in the words of the specification: the total of player \<open>p\<close> is the
  sum of that player's deltas over all hands of the history. The deltas are integers and
  the sum is the exact one.
\<close>

definition replay :: "nat \<Rightarrow> int list list \<Rightarrow> int list" where
  "replay n ds = map (\<lambda>p. sum_list (map (\<lambda>d. d ! p) ds)) [0..<n]"

text \<open>The hands of the history are the integer vectors \<open>ds\<close>.\<close>

definition recorded :: "Hand list \<Rightarrow> int list list \<Rightarrow> bool" where
  "recorded hs ds \<longleftrightarrow> map playerResults hs = map (map number) ds"

text \<open>
  A list of integers whose running sums, taken from the left, all stay within \<open>2\<^sup>5\<^sup>3\<close> in
  magnitude: each of them is then a number that binary64 holds exactly. A history is in
  the exact range when this holds of the deltas of each of the \<open>n\<close> players, that is
  when no total of a player ever went beyond \<open>2\<^sup>5\<^sup>3\<close>.
\<close>

definition exact_sum :: "int list \<Rightarrow> bool" where
  "exact_sum d = list_all (\<lambda>k. \<bar>sum_list (take k d)\<bar> \<le> 2 ^ 53) [0..<Suc (length d)]"

definition exact_range :: "nat \<Rightarrow> int list list \<Rightarrow> bool" where
  "exact_range n ds = list_all (\<lambda>p. exact_sum (map (\<lambda>d. d ! p) ds)) [0..<n]"

text \<open>All per-player arrays have one entry for each player.\<close>

definition well_formed :: "App \<Rightarrow> bool" where
  "well_formed s \<longleftrightarrow>
     length (playerNames s) = numPlayers s \<and>
     length (chips s) = numPlayers s \<and>
     length (rowie s) = numPlayers s \<and>
     length (handResults s) = numPlayers s \<and>
     list_all (\<lambda>h. length (playerResults h) = numPlayers s) (hands s)"

text \<open>
  The state of a game on the set-up and game screens: well formed, the viewed hand exists,
  no hand is recorded before the game screen, and the settings form is open only while no
  window is.
\<close>

definition window_open :: "App \<Rightarrow> bool" where
  "window_open s \<longleftrightarrow> 0 < currentHand (rowieSettings s)"

definition in_game :: "App \<Rightarrow> bool" where
  "in_game s \<longleftrightarrow>
     well_formed s \<and>
     - 1 \<le> currentHandIndex s \<and> currentHandIndex s < int (length (hands s)) \<and>
     \<not> showSummary s \<and>
     (step s = 1 \<or> step s = 2 \<or> step s = 3 \<or> step s = 4) \<and>
     (step s = 1 \<or> step s = 2 \<longrightarrow> hands s = []) \<and>
     (step s = 4 \<longrightarrow> \<not> window_open s)"

text \<open>
  The totals are those of the hand history: whenever the history consists of integer
  vectors within the exact range, the chip totals are their exact sums.
\<close>

definition tallied :: "App \<Rightarrow> bool" where
  "tallied s \<longleftrightarrow>
     (\<forall>ds. recorded (hands s) ds \<and> exact_range (numPlayers s) ds \<longrightarrow>
        chips s = map number (replay (numPlayers s) ds))"

subsection \<open>Auxiliary notions of the proofs\<close>

text \<open>A list of array writes, applied in order.\<close>

definition assign_all :: "int list \<Rightarrow> (nat \<times> int) list \<Rightarrow> int list" where
  "assign_all a asg = foldl (\<lambda>p (i, v). array_set 0 p i v) a asg"

text \<open>The players of \<^verbatim>\<open>playerChips\<close>, and what the grouping makes of a list of players.\<close>

definition indexed :: "int list \<Rightarrow> PlayerChip list" where
  "indexed finalChips =
     map (\<lambda>(chips, index). \<lparr>pc_chips = chips, pc_index = index\<rparr>)
       (zip finalChips [0..<length finalChips])"

definition grouped :: "groups \<Rightarrow> PlayerChip list \<Rightarrow> bool" where
  "grouped g pcs \<longleftrightarrow>
     distinct (map fst g) \<and>
     (\<forall>k. group_of g k =
        (if k \<in> pc_chips ` set pcs then Some (filter (\<lambda>p. pc_chips p = k) pcs) else None))"

definition rank_assignments :: "groups \<Rightarrow> int list \<Rightarrow> (int \<times> nat) list \<Rightarrow> (nat \<times> int) list" where
  "rank_assignments g s zs =
     concat (map (\<lambda>(a, r). map (\<lambda>pl. (pc_index pl, rank_payout g s r)) (players_at g a)) zs)"

text \<open>The binary64 number nearest to 5/100, the value of the literal \<^verbatim>\<open>0.05\<close>.\<close>

definition double_0_05 :: rat where
  "double_0_05 = 3602879701896397 / 72057594037927936"

text \<open>
  For the examples: the code units of a text of ASCII characters, and \<^verbatim>\<open>toUpperCase\<close>
  on such texts, where it maps the letters a to z to A to Z.
\<close>

definition utf16 :: "string \<Rightarrow> jsstring" where
  "utf16 s = map (\<lambda>c. of_nat (of_char c)) s"

definition ascii_upper :: "jsstring \<Rightarrow> jsstring" where
  "ascii_upper s = map (\<lambda>c. if 0x61 \<le> c \<and> c \<le> 0x7A then c - 0x20 else c) s"

section \<open>Ranked settlement\<close>

subsection \<open>Array writes\<close>

lemma length_array_set: "length (array_set 0 a i v) = max (length a) (Suc i)"
  by (auto simp: array_set_def)

lemma nth_array_set:
  "k < length (array_set 0 a i v) \<Longrightarrow>
   array_set 0 a i v ! k = (if k = i then v else if k < length a then a ! k else 0)"
  by (auto simp: array_set_def nth_append)

lemma assign_all_Nil [simp]: "assign_all a [] = a"
  by (simp add: assign_all_def)

lemma assign_all_Cons [simp]: "assign_all a ((i, v) # asg) = assign_all (array_set 0 a i v) asg"
  by (simp add: assign_all_def)

lemma assign_all_append: "assign_all a (xs @ ys) = assign_all (assign_all a xs) ys"
  by (simp add: assign_all_def)

lemma length_assign_all:
  "length (assign_all a asg) = fold (\<lambda>(i, v) n. max n (Suc i)) asg (length a)"
  by (induction asg arbitrary: a) (auto simp: length_array_set)

lemma length_assign_all_ge: "length a \<le> length (assign_all a asg)"
proof (induction asg arbitrary: a)
  case Nil show ?case by simp
next
  case (Cons x asg)
  obtain i v where x: "x = (i, v)" by (cases x)
  have "length a \<le> length (array_set 0 a i v)" by (simp add: length_array_set)
  also have "\<dots> \<le> length (assign_all (array_set 0 a i v) asg)" by (rule Cons.IH)
  finally show ?case by (simp add: x)
qed

lemma length_assign_all_bound:
  "\<forall>(i, v) \<in> set asg. i < n \<Longrightarrow> length a \<le> n \<Longrightarrow> length (assign_all a asg) \<le> n"
proof (induction asg arbitrary: a)
  case Nil then show ?case by simp
next
  case (Cons x asg)
  obtain i v where x: "x = (i, v)" by (cases x)
  from Cons.prems have "i < n" by (simp add: x)
  with Cons.prems have "length (array_set 0 a i v) \<le> n" by (simp add: length_array_set)
  with Cons.prems show ?case by (simp add: x Cons.IH)
qed

lemma length_assign_all_mem:
  "(i, v) \<in> set asg \<Longrightarrow> i < length (assign_all a asg)"
proof (induction asg arbitrary: a)
  case Nil then show ?case by simp
next
  case (Cons x asg)
  obtain j w where x: "x = (j, w)" by (cases x)
  show ?case
  proof (cases "(i, v) = (j, w)")
    case True
    have "i < length (array_set 0 a j w)" using True by (simp add: length_array_set)
    also have "\<dots> \<le> length (assign_all (array_set 0 a j w) asg)" by (rule length_assign_all_ge)
    finally show ?thesis by (simp add: x)
  next
    case False
    with Cons.prems x have "(i, v) \<in> set asg" by auto
    then show ?thesis by (simp add: x Cons.IH)
  qed
qed

lemma nth_assign_all_untouched:
  "k \<notin> fst ` set asg \<Longrightarrow> k < length (assign_all a asg) \<Longrightarrow>
   assign_all a asg ! k = (if k < length a then a ! k else 0)"
proof (induction asg arbitrary: a)
  case Nil then show ?case by simp
next
  case (Cons x asg)
  obtain j w where x: "x = (j, w)" by (cases x)
  from Cons.prems have kj: "k \<noteq> j" and notin: "k \<notin> fst ` set asg" by (auto simp: x)
  from Cons.prems have len: "k < length (assign_all (array_set 0 a j w) asg)" by (simp add: x)
  have "assign_all (array_set 0 a j w) asg ! k =
        (if k < length (array_set 0 a j w) then array_set 0 a j w ! k else 0)"
    using notin len by (rule Cons.IH)
  also have "\<dots> = (if k < length a then a ! k else 0)"
    using kj by (auto simp: array_set_def nth_append)
  finally show ?case by (simp add: x)
qed

lemma nth_assign_all_assigned:
  "(k, v) \<in> set asg \<Longrightarrow> \<forall>w. (k, w) \<in> set asg \<longrightarrow> w = v \<Longrightarrow> assign_all a asg ! k = v"
proof (induction asg arbitrary: a)
  case Nil then show ?case by simp
next
  case (Cons x asg)
  obtain j w where x: "x = (j, w)" by (cases x)
  have all: "\<forall>w. (k, w) \<in> set asg \<longrightarrow> w = v" using Cons.prems(2) by simp
  show ?case
  proof (cases "k \<in> fst ` set asg")
    case True
    then obtain y where y: "y \<in> set asg" "k = fst y" by blast
    then have "(k, snd y) \<in> set asg" by simp
    with all have "(k, v) \<in> set asg" by blast
    then have "assign_all (array_set 0 a j w) asg ! k = v" using all by (rule Cons.IH)
    then show ?thesis by (simp add: x)
  next
    case False
    have "(k, v) \<notin> set asg"
    proof
      assume "(k, v) \<in> set asg"
      then have "fst (k, v) \<in> fst ` set asg" by (rule imageI)
      with False show False by simp
    qed
    with Cons.prems(1) have eq: "j = k" "w = v" by (simp_all add: x)
    have "length (array_set 0 a k v) \<le> length (assign_all (array_set 0 a k v) asg)"
      by (rule length_assign_all_ge)
    then have len: "k < length (assign_all (array_set 0 a k v) asg)"
      by (simp add: length_array_set)
    have "assign_all (array_set 0 a k v) asg ! k =
          (if k < length (array_set 0 a k v) then array_set 0 a k v ! k else 0)"
      using False len by (rule nth_assign_all_untouched)
    also have "\<dots> = v" by (simp add: array_set_def nth_append)
    finally show ?thesis by (simp add: x eq)
  qed
qed

subsection \<open>Grouping by chip amount\<close>

lemma map_of_extend_group:
  "map_of (map (\<lambda>(k, ps). if k = key then (k, ps @ [p]) else (k, ps)) g) k =
   (if k = key then map_option (\<lambda>ps. ps @ [p]) (map_of g k) else map_of g k)"
  by (induction g) auto

lemma fst_extend_group:
  "map fst (map (\<lambda>(k, ps). if k = key then (k, ps @ [p]) else (k, ps)) g) = map fst g"
  by (induction g) auto

lemma filter_absent: "k \<notin> f ` set xs \<Longrightarrow> filter (\<lambda>q. f q = k) xs = []"
  by (induction xs) auto

lemma grouped_Nil: "grouped [] []"
  by (simp add: grouped_def group_of_def)

lemma grouped_add:
  assumes "grouped g pcs"
  shows "grouped (add_to_group g p) (pcs @ [p])"
proof (cases "group_of g (pc_chips p)")
  case None
  from assms have d: "distinct (map fst g)"
    and m: "\<And>k. map_of g k =
        (if k \<in> pc_chips ` set pcs then Some (filter (\<lambda>p. pc_chips p = k) pcs) else None)"
    by (simp_all add: grouped_def group_of_def)
  from None have fresh: "pc_chips p \<notin> fst ` set g"
    by (simp add: group_of_def map_of_eq_None_iff)
  from None m [of "pc_chips p"] have new: "pc_chips p \<notin> pc_chips ` set pcs"
    by (simp add: group_of_def split: if_splits)
  have g': "add_to_group g p = g @ [(pc_chips p, [p])]"
    using None by (simp add: add_to_group_def)
  have "distinct (map fst (g @ [(pc_chips p, [p])]))"
    using d fresh by simp
  moreover have "map_of (g @ [(pc_chips p, [p])]) k =
      (if k \<in> pc_chips ` set (pcs @ [p])
       then Some (filter (\<lambda>q. pc_chips q = k) (pcs @ [p])) else None)" for k
  proof (cases "k = pc_chips p")
    case True
    have "filter (\<lambda>q. pc_chips q = pc_chips p) pcs = []"
      using new by (rule filter_absent)
    moreover have "map_of g (pc_chips p) = None"
      using None by (simp add: group_of_def)
    ultimately show ?thesis using True by (simp add: map_add_def)
  next
    case False
    then show ?thesis by (auto simp: map_add_def m)
  qed
  ultimately show ?thesis by (simp add: grouped_def group_of_def g')
next
  case (Some ps)
  from assms have d: "distinct (map fst g)"
    and m: "\<And>k. map_of g k =
        (if k \<in> pc_chips ` set pcs then Some (filter (\<lambda>p. pc_chips p = k) pcs) else None)"
    by (simp_all add: grouped_def group_of_def)
  from Some m [of "pc_chips p"] have old: "pc_chips p \<in> pc_chips ` set pcs"
    by (simp add: group_of_def split: if_splits)
  have g': "add_to_group g p =
      map (\<lambda>(k, qs). if k = pc_chips p then (k, qs @ [p]) else (k, qs)) g"
    using Some by (simp add: add_to_group_def)
  have "map_of (add_to_group g p) k =
      (if k \<in> pc_chips ` set (pcs @ [p])
       then Some (filter (\<lambda>q. pc_chips q = k) (pcs @ [p])) else None)" for k
    unfolding g' map_of_extend_group using old by (auto simp: m)
  moreover have "distinct (map fst (add_to_group g p))"
    unfolding g' fst_extend_group by (rule d)
  ultimately show ?thesis by (simp add: grouped_def group_of_def)
qed

lemma grouped_foldl:
  "grouped g pcs \<Longrightarrow> grouped (foldl add_to_group g ps) (pcs @ ps)"
proof (induction ps arbitrary: g pcs)
  case Nil then show ?case by simp
next
  case (Cons p ps)
  from Cons.prems have "grouped (add_to_group g p) (pcs @ [p])" by (rule grouped_add)
  then have "grouped (foldl add_to_group (add_to_group g p) ps) ((pcs @ [p]) @ ps)"
    by (rule Cons.IH)
  then show ?case by simp
qed

lemma grouped_all: "grouped (foldl add_to_group [] pcs) pcs"
  using grouped_foldl [OF grouped_Nil, of pcs] by simp

lemma grouped_keys:
  assumes "grouped g pcs"
  shows "set (map fst g) = pc_chips ` set pcs"
proof -
  have "k \<in> fst ` set g \<longleftrightarrow> k \<in> pc_chips ` set pcs" for k
  proof -
    have "k \<in> fst ` set g \<longleftrightarrow> map_of g k \<noteq> None"
      by (simp add: map_of_eq_None_iff)
    also have "\<dots> \<longleftrightarrow> k \<in> pc_chips ` set pcs"
      using assms by (simp add: grouped_def group_of_def)
    finally show ?thesis .
  qed
  then show ?thesis by auto
qed

lemma grouped_players_at:
  assumes "grouped g pcs"
  shows "players_at g k = filter (\<lambda>p. pc_chips p = k) pcs"
proof (cases "k \<in> pc_chips ` set pcs")
  case True
  with assms show ?thesis by (simp add: grouped_def players_at_def)
next
  case False
  then have "filter (\<lambda>p. pc_chips p = k) pcs = []"
    by (rule filter_absent)
  with False assms show ?thesis by (simp add: grouped_def players_at_def)
qed

subsection \<open>Counting the players above and below a rank\<close>

lemma count_groups_sum:
  "foldl (\<lambda>sum amount. sum + length (players_at g amount)) n amounts =
   n + sum_list (map (\<lambda>a. length (players_at g a)) amounts)"
  by (induction amounts arbitrary: n) simp_all

lemma length_filter_disjoint:
  "(\<And>x. x \<in> set xs \<Longrightarrow> \<not> (P x \<and> Q x)) \<Longrightarrow>
   length (filter P xs) + length (filter Q xs) = length (filter (\<lambda>x. P x \<or> Q x) xs)"
  by (induction xs) auto

lemma sum_group_sizes:
  "distinct as \<Longrightarrow>
   sum_list (map (\<lambda>a. length (filter (\<lambda>p. f p = a) ps)) as) =
   length (filter (\<lambda>p. f p \<in> set as) ps)"
proof (induction as)
  case Nil then show ?case by simp
next
  case (Cons a as)
  then have IH: "sum_list (map (\<lambda>a. length (filter (\<lambda>p. f p = a) ps)) as) =
      length (filter (\<lambda>p. f p \<in> set as) ps)" and a: "a \<notin> set as" by simp_all
  have "length (filter (\<lambda>p. f p = a) ps) + length (filter (\<lambda>p. f p \<in> set as) ps) =
        length (filter (\<lambda>p. f p = a \<or> f p \<in> set as) ps)"
    using a by (intro length_filter_disjoint) auto
  then show ?case using IH by (simp add: eq_commute [of a])
qed

lemma count_groups_filter:
  assumes "grouped g pcs" "distinct as"
  shows "count_groups g as = length (filter (\<lambda>p. pc_chips p \<in> set as) pcs)"
proof -
  have "count_groups g as = sum_list (map (\<lambda>a. length (players_at g a)) as)"
    by (simp add: count_groups_def count_groups_sum)
  also have "\<dots> = sum_list (map (\<lambda>a. length (filter (\<lambda>p. pc_chips p = a) pcs)) as)"
    by (simp add: grouped_players_at [OF assms(1)])
  also have "\<dots> = length (filter (\<lambda>p. pc_chips p \<in> set as) pcs)"
    using assms(2) by (rule sum_group_sizes)
  finally show ?thesis .
qed

lemma sort_descending_props:
  assumes "distinct ks"
  shows "distinct (sort_descending ks)" "set (sort_descending ks) = set ks"
    "sorted_wrt (\<lambda>a b. b < a) (sort_descending ks)"
proof -
  show "distinct (sort_descending ks)" using assms by (simp add: sort_descending_def)
  show "set (sort_descending ks) = set ks" by (simp add: sort_descending_def)
  have "sorted_wrt (<) (sort ks)"
    using assms by (simp add: strict_sorted_iff)
  then have "sorted_wrt (\<lambda>a b. b < a) (rev (sort ks))"
    by (simp add: sorted_wrt_rev)
  then show "sorted_wrt (\<lambda>a b. b < a) (sort_descending ks)" by (simp add: sort_descending_def)
qed

lemma descending_take:
  assumes "sorted_wrt (\<lambda>a b. b < a) (s :: int list)" "r < length s" "a \<in> set s"
  shows "a \<in> set (take r s) \<longleftrightarrow> s ! r < a"
proof
  assume "a \<in> set (take r s)"
  then obtain i where i: "i < length (take r s)" "take r s ! i = a"
    by (auto simp: in_set_conv_nth)
  then have "i < r" "s ! i = a" by simp_all
  with assms(1,2) show "s ! r < a" by (auto simp: sorted_wrt_iff_nth_less)
next
  assume gt: "s ! r < a"
  from assms(3) obtain i where i: "i < length s" "s ! i = a"
    by (auto simp: in_set_conv_nth)
  have "i < r"
  proof (rule ccontr)
    assume "\<not> i < r"
    then consider "i = r" | "r < i" by linarith
    then show False
    proof cases
      case 1 with i gt show False by simp
    next
      case 2
      with assms(1) i have "s ! i < s ! r" by (auto simp: sorted_wrt_iff_nth_less)
      with i gt show False by simp
    qed
  qed
  then have "take r s ! i = a" "i < length (take r s)" using i by simp_all
  then show "a \<in> set (take r s)" by (metis nth_mem)
qed

lemma descending_drop:
  assumes "sorted_wrt (\<lambda>a b. b < a) (s :: int list)" "r < length s" "a \<in> set s"
  shows "a \<in> set (drop (Suc r) s) \<longleftrightarrow> a < s ! r"
proof
  assume "a \<in> set (drop (Suc r) s)"
  then obtain i where i: "i < length (drop (Suc r) s)" "drop (Suc r) s ! i = a"
    by (auto simp: in_set_conv_nth)
  then have "Suc r + i < length s" "s ! (Suc r + i) = a" by simp_all
  moreover have "r < Suc r + i" by simp
  ultimately show "a < s ! r" using assms(1) by (auto simp: sorted_wrt_iff_nth_less)
next
  assume lt: "a < s ! r"
  from assms(3) obtain i where i: "i < length s" "s ! i = a"
    by (auto simp: in_set_conv_nth)
  have "r < i"
  proof (rule ccontr)
    assume "\<not> r < i"
    then consider "i = r" | "i < r" by linarith
    then show False
    proof cases
      case 1 with i lt show False by simp
    next
      case 2
      with assms(1,2) have "s ! r < s ! i" by (auto simp: sorted_wrt_iff_nth_less)
      with i lt show False by simp
    qed
  qed
  then obtain j where j: "i = Suc r + j" by (metis less_iff_Suc_add add_Suc)
  with i have "drop (Suc r) s ! j = a" "j < length (drop (Suc r) s)" by simp_all
  then show "a \<in> set (drop (Suc r) s)" by (metis nth_mem)
qed

subsection \<open>The payouts\<close>

lemma length_indexed [simp]: "length (indexed fc) = length fc"
  by (simp add: indexed_def)

lemma nth_indexed: "i < length fc \<Longrightarrow> indexed fc ! i = \<lparr>pc_chips = fc ! i, pc_index = i\<rparr>"
  by (simp add: indexed_def)

lemma chips_indexed: "map pc_chips (indexed fc) = fc"
  by (rule nth_equalityI) (simp_all add: nth_indexed)

lemma set_chips_indexed: "pc_chips ` set (indexed fc) = set fc"
  using chips_indexed [of fc] by (metis set_map)

lemma in_indexed:
  "p \<in> set (indexed fc) \<longleftrightarrow> pc_index p < length fc \<and> pc_chips p = fc ! pc_index p"
proof
  assume "p \<in> set (indexed fc)"
  then obtain i where "i < length fc" "indexed fc ! i = p"
    by (auto simp: in_set_conv_nth)
  then show "pc_index p < length fc \<and> pc_chips p = fc ! pc_index p"
    by (auto simp: nth_indexed)
next
  assume a: "pc_index p < length fc \<and> pc_chips p = fc ! pc_index p"
  then have "indexed fc ! pc_index p = p" by (simp add: nth_indexed)
  moreover have "pc_index p < length (indexed fc)" using a by simp
  ultimately show "p \<in> set (indexed fc)" by (metis nth_mem)
qed

lemma count_indexed:
  "length (filter (\<lambda>p. P (pc_chips p)) (indexed fc)) = length (filter P fc)"
proof -
  have "length (filter P (map pc_chips (indexed fc))) =
        length (filter (P \<circ> pc_chips) (indexed fc))"
    by (simp add: filter_map)
  then show ?thesis by (simp add: chips_indexed comp_def)
qed

lemma rank_payout_eq:
  assumes g: "grouped g (indexed fc)"
    and s: "s = sort_descending (map fst g)"
    and r: "r < length s"
  shows "rank_payout g s r =
         int (playersBelow fc (s ! r)) * BUBBLE_AMOUNT - int (playersAbove fc (s ! r)) * BUBBLE_AMOUNT"
proof -
  from g have d: "distinct (map fst g)" by (simp add: grouped_def)
  have ds: "distinct s" and desc: "sorted_wrt (\<lambda>a b. b < a) s"
    and sets: "set s = set fc"
    using sort_descending_props [OF d] grouped_keys [OF g]
    by (simp_all add: s set_chips_indexed)
  have mem: "pc_chips p \<in> set s" if "p \<in> set (indexed fc)" for p
    using that sets set_chips_indexed [of fc] by blast
  have "count_groups g (take r s) =
        length (filter (\<lambda>p. pc_chips p \<in> set (take r s)) (indexed fc))"
    using g ds by (intro count_groups_filter) simp_all
  also have "\<dots> = length (filter (\<lambda>p. s ! r < pc_chips p) (indexed fc))"
    by (intro arg_cong [where f = length] filter_cong refl descending_take desc r mem)
  also have "\<dots> = playersAbove fc (s ! r)"
    using count_indexed [of "\<lambda>x. s ! r < x" fc] by (simp add: playersAbove_def)
  finally have above: "count_groups g (take r s) = playersAbove fc (s ! r)" .
  have "count_groups g (drop (Suc r) s) =
        length (filter (\<lambda>p. pc_chips p \<in> set (drop (Suc r) s)) (indexed fc))"
    using g ds by (intro count_groups_filter) simp_all
  also have "\<dots> = length (filter (\<lambda>p. pc_chips p < s ! r) (indexed fc))"
    by (intro arg_cong [where f = length] filter_cong refl descending_drop desc r mem)
  also have "\<dots> = playersBelow fc (s ! r)"
    using count_indexed [of "\<lambda>x. x < s ! r" fc] by (simp add: playersBelow_def)
  finally have below: "count_groups g (drop (Suc r) s) = playersBelow fc (s ! r)" .
  show ?thesis by (simp add: rank_payout_def above below)
qed

lemma foldl_array_set_assign:
  "foldl (\<lambda>p player. array_set 0 p (pc_index player) v) a ps =
   assign_all a (map (\<lambda>pl. (pc_index pl, v)) ps)"
  by (induction ps arbitrary: a) simp_all

lemma pay_rank_assign:
  "foldl (pay_rank g s) a zs = assign_all a (rank_assignments g s zs)"
proof (induction zs arbitrary: a)
  case Nil then show ?case by (simp add: rank_assignments_def)
next
  case (Cons z zs)
  obtain c r where z: "z = (c, r)" by (cases z)
  have "pay_rank g s a (c, r) =
        assign_all a (map (\<lambda>pl. (pc_index pl, rank_payout g s r)) (players_at g c))"
    by (simp add: pay_rank_def foldl_array_set_assign)
  then show ?case
    using Cons.IH by (simp add: z rank_assignments_def assign_all_append)
qed

lemma in_rank_assignments:
  "(i, w) \<in> set (rank_assignments g s zs) \<longleftrightarrow>
   (\<exists>a r pl. (a, r) \<in> set zs \<and> pl \<in> set (players_at g a) \<and> pc_index pl = i \<and>
      w = rank_payout g s r)"
  by (auto simp: rank_assignments_def)

lemma bubble_assignments:
  fixes fc :: "int list"
  assumes g_def: "g = foldl add_to_group [] (indexed fc)"
    and s_def: "s = sort_descending (map fst g)"
    and asg_def: "asg = rank_assignments g s (zip s [0..<length s])"
  shows "\<And>i. i < length fc \<Longrightarrow> (i, bubble_share fc (fc ! i)) \<in> set asg"
    and "\<And>i w. (i, w) \<in> set asg \<Longrightarrow> i < length fc \<and> w = bubble_share fc (fc ! i)"
proof -
  have g: "grouped g (indexed fc)" unfolding g_def by (rule grouped_all)
  then have d: "distinct (map fst g)" by (simp add: grouped_def)
  have sets: "set s = set fc"
    using sort_descending_props(2) [OF d] grouped_keys [OF g]
    by (simp add: s_def set_chips_indexed)
  have zip_mem: "(a, r) \<in> set (zip s [0..<length s]) \<longleftrightarrow> r < length s \<and> s ! r = a" for a r
    by (auto simp: in_set_zip)
  have pay: "rank_payout g s r = bubble_share fc (s ! r)" if "r < length s" for r
    using rank_payout_eq [OF g s_def that] by (simp add: bubble_share_def algebra_simps)
  {
    fix i assume i: "i < length fc"
    then have "fc ! i \<in> set s" by (simp add: sets)
    then obtain r where r: "r < length s" "s ! r = fc ! i"
      by (auto simp: in_set_conv_nth)
    let ?pl = "\<lparr>pc_chips = fc ! i, pc_index = i\<rparr>"
    have "?pl \<in> set (indexed fc)" using i by (simp add: in_indexed)
    then have "?pl \<in> set (players_at g (fc ! i))"
      by (simp add: grouped_players_at [OF g])
    moreover have "(fc ! i, r) \<in> set (zip s [0..<length s])"
      using r by (simp add: zip_mem)
    moreover have "bubble_share fc (fc ! i) = rank_payout g s r"
      using pay [OF r(1)] r(2) by simp
    moreover have "pc_index ?pl = i" by simp
    ultimately show "(i, bubble_share fc (fc ! i)) \<in> set asg"
      unfolding asg_def in_rank_assignments by blast
  next
    fix i w assume "(i, w) \<in> set asg"
    then obtain a r pl where *: "(a, r) \<in> set (zip s [0..<length s])"
      "pl \<in> set (players_at g a)" "pc_index pl = i" "w = rank_payout g s r"
      unfolding asg_def in_rank_assignments by blast
    from *(1) have r: "r < length s" "s ! r = a" by (simp_all add: zip_mem)
    from *(2) have "pl \<in> set (indexed fc)" "pc_chips pl = a"
      by (simp_all add: grouped_players_at [OF g])
    with *(3) have "i < length fc" "a = fc ! i" by (auto simp: in_indexed)
    with *(4) r pay [OF r(1)] show "i < length fc \<and> w = bubble_share fc (fc ! i)" by simp
  }
qed

lemma bubble_payouts_assign:
  "calculateBubblePayouts n fc =
   assign_all (replicate n 0)
     (rank_assignments (foldl add_to_group [] (indexed fc))
        (sort_descending (map fst (foldl add_to_group [] (indexed fc))))
        (zip (sort_descending (map fst (foldl add_to_group [] (indexed fc))))
           [0..<length (sort_descending (map fst (foldl add_to_group [] (indexed fc))))]))"
  by (simp add: calculateBubblePayouts_def Let_def pay_rank_assign indexed_def)

lemma bubble_payouts_eq:
  "calculateBubblePayouts n fc =
   map (bubble_share fc) fc @ replicate (n - length fc) 0"
proof -
  define asg where "asg =
     rank_assignments (foldl add_to_group [] (indexed fc))
        (sort_descending (map fst (foldl add_to_group [] (indexed fc))))
        (zip (sort_descending (map fst (foldl add_to_group [] (indexed fc))))
           [0..<length (sort_descending (map fst (foldl add_to_group [] (indexed fc))))])"
  have res: "calculateBubblePayouts n fc = assign_all (replicate n 0) asg"
    by (simp add: bubble_payouts_assign asg_def)
  have there: "(i, bubble_share fc (fc ! i)) \<in> set asg" if "i < length fc" for i
    using that by (rule bubble_assignments(1) [OF refl refl asg_def])
  have only: "i < length fc \<and> w = bubble_share fc (fc ! i)" if "(i, w) \<in> set asg" for i w
    using that by (rule bubble_assignments(2) [OF refl refl asg_def])
  have len: "length (assign_all (replicate n 0) asg) = max n (length fc)"
  proof (rule antisym)
    have "\<forall>(i, v) \<in> set asg. i < max n (length fc)"
      using only by fastforce
    then show "length (assign_all (replicate n 0) asg) \<le> max n (length fc)"
      by (rule length_assign_all_bound) simp
  next
    have 1: "n \<le> length (assign_all (replicate n 0) asg)"
      using length_assign_all_ge [of "replicate n 0" asg] by simp
    have 2: "length fc \<le> length (assign_all (replicate n 0) asg)"
    proof (cases "fc = []")
      case True then show ?thesis by simp
    next
      case False
      then have "length fc - 1 < length fc" by simp
      then have "length fc - 1 < length (assign_all (replicate n 0) asg)"
        using there length_assign_all_mem by blast
      then show ?thesis by simp
    qed
    from 1 2 show "max n (length fc) \<le> length (assign_all (replicate n 0) asg)" by simp
  qed
  have "assign_all (replicate n 0) asg = map (bubble_share fc) fc @ replicate (n - length fc) 0"
  proof (rule nth_equalityI)
    show "length (assign_all (replicate n 0) asg) =
          length (map (bubble_share fc) fc @ replicate (n - length fc) 0)"
      by (simp add: len)
  next
    fix i assume "i < length (assign_all (replicate n 0) asg)"
    then have i: "i < max n (length fc)" by (simp add: len)
    show "assign_all (replicate n 0) asg ! i =
          (map (bubble_share fc) fc @ replicate (n - length fc) 0) ! i"
    proof (cases "i < length fc")
      case True
      have "assign_all (replicate n 0) asg ! i = bubble_share fc (fc ! i)"
        using there [OF True] only by (intro nth_assign_all_assigned) blast+
      then show ?thesis using True by (simp add: nth_append)
    next
      case False
      then have "i \<notin> fst ` set asg" using only by fastforce
      then have "assign_all (replicate n 0) asg ! i =
                 (if i < length (replicate n (0::int)) then replicate n 0 ! i else 0)"
        using i by (intro nth_assign_all_untouched) (simp_all add: len)
      then show ?thesis using False i by (simp add: nth_append)
    qed
  qed
  with res show ?thesis by simp
qed

lemma sum_below_Cons:
  "(\<Sum>x\<leftarrow>ys. int (playersBelow (a # xs) x)) =
   (\<Sum>x\<leftarrow>ys. int (playersBelow xs x)) + int (playersAbove ys a)"
  by (induction ys) (simp_all add: playersBelow_def playersAbove_def)

lemma sum_above_Cons:
  "(\<Sum>x\<leftarrow>ys. int (playersAbove (a # xs) x)) =
   (\<Sum>x\<leftarrow>ys. int (playersAbove xs x)) + int (playersBelow ys a)"
  by (induction ys) (simp_all add: playersBelow_def playersAbove_def)

lemma sum_below_above:
  "(\<Sum>x\<leftarrow>xs. int (playersBelow xs x)) = (\<Sum>x\<leftarrow>xs. int (playersAbove xs x))"
proof (induction xs)
  case Nil then show ?case by simp
next
  case (Cons a xs)
  have "playersBelow (a # xs) a = playersBelow xs a" "playersAbove (a # xs) a = playersAbove xs a"
    by (simp_all add: playersBelow_def playersAbove_def)
  with Cons.IH show ?case by (simp add: sum_below_Cons sum_above_Cons)
qed

lemma sum_bubble_share_gen:
  "(\<Sum>x\<leftarrow>ys. bubble_share xs x) =
   BUBBLE_AMOUNT * ((\<Sum>x\<leftarrow>ys. int (playersBelow xs x)) - (\<Sum>x\<leftarrow>ys. int (playersAbove xs x)))"
  by (induction ys) (simp_all add: bubble_share_def algebra_simps)

lemma sum_bubble_share: "(\<Sum>x\<leftarrow>xs. bubble_share xs x) = 0"
  by (simp add: sum_bubble_share_gen sum_below_above)

text \<open>
  Claim C2. For every vector of final chip counts (and any number of players), the
  payouts returned by \<open>calculateBubblePayouts\<close> sum to exactly zero. The payouts are
  integers: counts of players times the unit amount \<open>BUBBLE_AMOUNT\<close>.
\<close>

theorem bubble_payouts_sum_zero: "sum_list (calculateBubblePayouts n finalChips) = 0"
  by (simp add: bubble_payouts_eq sum_bubble_share sum_list_replicate)

text \<open>
  Claim C5, the example as the claim states it: with the totals 50, -20 and -30 the claim
  expects the payouts 20, -10 and -10. The totals -20 and -30 differ, so the second player
  has one player above and one below and is paid 0, and the third pays 20.
\<close>

theorem bubble_example_counterexample:
  "calculateBubblePayouts 3 [50, - 20, - 30] = [20, 0, - 20] \<and>
   calculateBubblePayouts 3 [50, - 20, - 30] \<noteq> [20, - 10, - 10]"
  by code_simp

text \<open>
  Claim C5, amended in its example only. Every player is paid the unit amount times the
  number of players with strictly fewer chips minus the number of players with strictly
  more chips (entries of the result beyond the chip vector stay 0); players with equal
  chips count neither above nor below each other and receive the same payout. With the
  totals 50, -20 and -30 the payouts are 20, 0 and -20.
\<close>

theorem bubble_payouts_by_rank:
  "calculateBubblePayouts n finalChips =
     map (\<lambda>v. BUBBLE_AMOUNT * (int (playersBelow finalChips v) - int (playersAbove finalChips v)))
       finalChips @ replicate (n - length finalChips) 0
   \<and> (\<forall>i j. i < length finalChips \<and> j < length finalChips \<and> finalChips ! i = finalChips ! j \<longrightarrow>
         calculateBubblePayouts n finalChips ! i = calculateBubblePayouts n finalChips ! j)
   \<and> calculateBubblePayouts 3 [50, - 20, - 30] = [20, 0, - 20]"
proof (intro conjI allI impI)
  have eq: "calculateBubblePayouts n finalChips =
      map (bubble_share finalChips) finalChips @ replicate (n - length finalChips) 0"
    by (rule bubble_payouts_eq)
  have share: "bubble_share finalChips =
      (\<lambda>v. BUBBLE_AMOUNT * (int (playersBelow finalChips v) - int (playersAbove finalChips v)))"
    by (rule ext) (simp add: bubble_share_def)
  show "calculateBubblePayouts n finalChips =
     map (\<lambda>v. BUBBLE_AMOUNT * (int (playersBelow finalChips v) - int (playersAbove finalChips v)))
       finalChips @ replicate (n - length finalChips) 0"
    using eq by (simp only: share)
  show "calculateBubblePayouts n finalChips ! i = calculateBubblePayouts n finalChips ! j"
    if "i < length finalChips \<and> j < length finalChips \<and> finalChips ! i = finalChips ! j"
    for i j
    using that by (simp add: eq nth_append)
  show "calculateBubblePayouts 3 [50, - 20, - 30] = [20, 0, - 20]"
    by code_simp
qed

theorem bubble_payouts_by_rank_witness:
  "(1::nat) < length [50, - 20, - 20 :: int] \<and> (2::nat) < length [50, - 20, - 20 :: int] \<and>
   [50, - 20, - 20 :: int] ! 1 = [50, - 20, - 20] ! 2 \<and>
   calculateBubblePayouts 3 [50, - 20, - 20] ! 1 = calculateBubblePayouts 3 [50, - 20, - 20] ! 2 \<and>
   calculateBubblePayouts 3 [50, - 20, - 20] ! 1 = - 10"
proof -
  have h: "(1::nat) < length [50, - 20, - 20 :: int] \<and> (2::nat) < length [50, - 20, - 20 :: int] \<and>
      [50, - 20, - 20 :: int] ! 1 = [50, - 20, - 20] ! 2"
    by simp
  have "calculateBubblePayouts 3 [50, - 20, - 20] ! 1 = calculateBubblePayouts 3 [50, - 20, - 20] ! 2"
    using bubble_payouts_by_rank [of 3 "[50, - 20, - 20]"] h by blast
  moreover have "calculateBubblePayouts 3 [50, - 20, - 20] ! 1 = - 10"
    by code_simp
  ultimately show ?thesis using h by blast
qed

section \<open>Binary64 arithmetic\<close>

subsection \<open>Binades\<close>

lemma two_powi_nat: "0 \<le> k \<Longrightarrow> (2::rat) ^ nat k = 2 powi k"
  by (simp add: power_int_def)

lemma two_powi_Suc: "(2::rat) powi (k + 1) = 2 * 2 powi k"
  by (simp add: power_int_add)

lemma two_powi_pred: "(2::rat) powi (k - 1) = 2 powi k / 2"
  by (simp add: power_int_diff)

lemma two_powi_le: "(2::rat) powi a \<le> 2 powi b \<longleftrightarrow> a \<le> b"
proof
  assume "(2::rat) powi a \<le> 2 powi b"
  show "a \<le> b"
  proof (rule ccontr)
    assume "\<not> a \<le> b"
    then have "b < a" by simp
    then have "(2::rat) powi b < 2 powi a" by (intro power_int_strict_increasing) simp_all
    with \<open>(2::rat) powi a \<le> 2 powi b\<close> show False by simp
  qed
next
  assume "a \<le> b"
  then show "(2::rat) powi a \<le> 2 powi b" by (intro power_int_increasing) simp_all
qed

lemma two_powi_less: "(2::rat) powi a < 2 powi b \<longleftrightarrow> a < b"
  using two_powi_le [of b a] by (auto simp: not_le [symmetric])

lemma bitlen_bounds_rat:
  assumes "0 < a"
  shows "(2::rat) powi (bitlen a - 1) \<le> of_int a" "(of_int a :: rat) < 2 powi bitlen a"
proof -
  from assms have pos: "1 \<le> bitlen a"
    using bitlen_eq_zero_iff [of a] bitlen_nonneg [of a] by linarith
  from bitlen_bounds [OF assms] have "2 ^ nat (bitlen a - 1) \<le> a" "a < 2 ^ nat (bitlen a)"
    by simp_all
  then have "(of_int (2 ^ nat (bitlen a - 1)) :: rat) \<le> of_int a"
    "(of_int a :: rat) < of_int (2 ^ nat (bitlen a))"
    by (simp_all only: of_int_le_iff of_int_less_iff)
  then show "(2::rat) powi (bitlen a - 1) \<le> of_int a" "(of_int a :: rat) < 2 powi bitlen a"
    using pos by (simp_all add: two_powi_nat)
qed

lemma binade_bounds:
  assumes "x \<noteq> 0"
  shows "2 powi binade x \<le> \<bar>x\<bar>" "\<bar>x\<bar> < 2 powi (binade x + 1)"
proof -
  define a where "a = fst (quotient_of \<bar>x\<bar>)"
  define b where "b = snd (quotient_of \<bar>x\<bar>)"
  define e where "e = bitlen a - bitlen b"
  have b: "0 < b" unfolding b_def by (rule quotient_of_denom_pos')
  have x: "\<bar>x\<bar> = of_int a / of_int b"
    unfolding a_def b_def by (intro quotient_of_div) simp
  have "0 < \<bar>x\<bar>" using assms by simp
  then have a: "0 < a" using b unfolding x by (simp add: zero_less_divide_iff)
  note A = bitlen_bounds_rat [OF a] and B = bitlen_bounds_rat [OF b]
  have bpos: "(0::rat) < of_int b" using b by simp
  have "\<bar>x\<bar> < 2 powi bitlen a / 2 powi (bitlen b - 1)"
    unfolding x using A(2) B(1) a
    by (intro frac_less) simp_all
  also have "\<dots> = 2 powi (e + 1)"
    by (simp add: e_def power_int_diff [symmetric] algebra_simps)
  finally have up: "\<bar>x\<bar> < 2 powi (e + 1)" .
  have "2 powi (bitlen a - 1) / 2 powi bitlen b < \<bar>x\<bar>"
    unfolding x using A(1) B(2) bpos
    by (intro frac_less2) simp_all
  moreover have "(2::rat) powi (bitlen a - 1) / 2 powi bitlen b = 2 powi (e - 1)"
    by (simp add: e_def power_int_diff [symmetric] algebra_simps)
  ultimately have low: "2 powi (e - 1) < \<bar>x\<bar>" by simp
  have bin: "binade x = (if 2 powi e \<le> \<bar>x\<bar> then e else e - 1)"
    by (simp add: binade_def Let_def a_def b_def e_def)
  show "2 powi binade x \<le> \<bar>x\<bar>"
    using low by (simp add: bin less_imp_le)
  show "\<bar>x\<bar> < 2 powi (binade x + 1)"
    using up by (simp add: bin not_le)
qed

lemma binade_unique:
  assumes "2 powi e \<le> \<bar>x\<bar>" "\<bar>x\<bar> < 2 powi (e + 1)"
  shows "binade x = e"
proof -
  have "(0::rat) < 2 powi e" by simp
  with assms(1) have "0 < \<bar>x\<bar>" by linarith
  then have nz: "x \<noteq> 0" by simp
  note b = binade_bounds [OF nz]
  from assms(1) b(2) have "(2::rat) powi e < 2 powi (binade x + 1)" by simp
  then have 1: "e < binade x + 1" by (simp add: two_powi_less)
  from b(1) assms(2) have "(2::rat) powi binade x < 2 powi (e + 1)" by simp
  then have 2: "binade x < e + 1" by (simp add: two_powi_less)
  from 1 2 show ?thesis by simp
qed

subsection \<open>Rounding to the nearest binary64 number\<close>

lemma round_to_even_error: "\<bar>of_int (round_to_even z) - z\<bar> \<le> 1 / 2"
proof -
  define d where "d = z - of_int \<lfloor>z\<rfloor>"
  have d: "0 \<le> d" "d < 1" unfolding d_def by linarith+
  have z: "z = of_int \<lfloor>z\<rfloor> + d" by (simp add: d_def)
  consider "d < 1 / 2" | "1 / 2 < d" | "d = 1 / 2" by linarith
  then show ?thesis
  proof cases
    case 1
    then have "round_to_even z = \<lfloor>z\<rfloor>" by (simp add: round_to_even_def Let_def d_def)
    with 1 d show ?thesis by (simp add: d_def)
  next
    case 2
    then have "round_to_even z = \<lfloor>z\<rfloor> + 1" by (simp add: round_to_even_def Let_def d_def)
    with 2 d show ?thesis by (simp add: d_def)
  next
    case 3
    then have "round_to_even z = \<lfloor>z\<rfloor> \<or> round_to_even z = \<lfloor>z\<rfloor> + 1"
      by (simp add: round_to_even_def Let_def d_def)
    with 3 show ?thesis by (auto simp: d_def)
  qed
qed

lemma round_to_even_close:
  assumes "\<bar>z - of_int k\<bar> < 1 / 2"
  shows "round_to_even z = k"
proof -
  have "\<bar>(of_int (round_to_even z) :: rat) - of_int k\<bar> < 1"
    using round_to_even_error [of z] assms by linarith
  then have "\<bar>(of_int (round_to_even z - k) :: rat)\<bar> < 1" by simp
  then have "\<bar>round_to_even z - k\<bar> < 1"
    by (metis of_int_abs of_int_less_1_iff)
  then show ?thesis by simp
qed

lemma round_to_even_of_int: "round_to_even (of_int k) = k"
  by (rule round_to_even_close) simp

lemma round_to_even_range:
  assumes "of_int a \<le> z" "z \<le> of_int b"
  shows "a \<le> round_to_even z" "round_to_even z \<le> b"
proof -
  have "(of_int a :: rat) < of_int (round_to_even z) + 1"
    using round_to_even_error [of z] assms(1) by linarith
  then have "(of_int a :: rat) < of_int (round_to_even z + 1)" by simp
  then have "a < round_to_even z + 1" by (simp only: of_int_less_iff)
  then show "a \<le> round_to_even z" by simp
  have "(of_int (round_to_even z) :: rat) < of_int b + 1"
    using round_to_even_error [of z] assms(2) by linarith
  then have "(of_int (round_to_even z) :: rat) < of_int (b + 1)" by simp
  then have "round_to_even z < b + 1" by (simp only: of_int_less_iff)
  then show "round_to_even z \<le> b" by simp
qed

text \<open>A number in the normal range: its binade is at least -1022.\<close>

lemma nearest64_normal:
  assumes "x \<noteq> 0" "- 1022 \<le> binade x"
  shows "nearest64 x =
    sgn x * (of_int (round_to_even (\<bar>x\<bar> / 2 powi (binade x - 52))) * 2 powi (binade x - 52))"
  using assms by (simp add: nearest64_def Let_def max_def)

lemma significand_range:
  assumes "x \<noteq> 0"
  shows "2 ^ 52 \<le> \<bar>x\<bar> / 2 powi (binade x - 52)" "\<bar>x\<bar> / 2 powi (binade x - 52) < 2 ^ 53"
proof -
  have u: "(0::rat) < 2 powi (binade x - 52)" by simp
  have 1: "(2::rat) ^ 52 * 2 powi (binade x - 52) = 2 powi binade x"
    by (simp add: power_int_diff)
  have 2: "(2::rat) ^ 53 * 2 powi (binade x - 52) = 2 powi (binade x + 1)"
    by (simp add: power_int_diff power_int_add)
  show "2 ^ 52 \<le> \<bar>x\<bar> / 2 powi (binade x - 52)"
    using binade_bounds(1) [OF assms] u by (simp only: le_divide_eq 1 if_True)
  show "\<bar>x\<bar> / 2 powi (binade x - 52) < 2 ^ 53"
    using binade_bounds(2) [OF assms] u by (simp only: divide_less_eq 2 if_True)
qed

lemma nearest64_error:
  assumes "x \<noteq> 0" "- 1022 \<le> binade x"
  shows "\<bar>nearest64 x - x\<bar> \<le> 2 powi (binade x - 53)"
proof -
  define u :: rat where "u = 2 powi (binade x - 52)"
  define M where "M = round_to_even (\<bar>x\<bar> / u)"
  have u: "0 < u" by (simp add: u_def)
  have half: "u / 2 = 2 powi (binade x - 53)"
    by (simp add: u_def power_int_diff)
  have n: "nearest64 x = sgn x * (of_int M * u)"
    using nearest64_normal [OF assms] by (simp add: M_def u_def)
  have x: "x = sgn x * (\<bar>x\<bar> / u * u)" using u by (simp add: sgn_mult_abs)
  have "nearest64 x - x = sgn x * ((of_int M - \<bar>x\<bar> / u) * u)"
    by (subst x, subst n) (simp add: algebra_simps)
  then have "\<bar>nearest64 x - x\<bar> = \<bar>of_int M - \<bar>x\<bar> / u\<bar> * u"
    using assms(1) u by (simp add: abs_mult abs_sgn_eq)
  also have "\<dots> \<le> 1 / 2 * u"
    using round_to_even_error [of "\<bar>x\<bar> / u"] u
    by (intro mult_right_mono) (simp_all add: M_def)
  finally show ?thesis by (simp add: half [symmetric])
qed

lemma nearest64_grid:
  assumes "x \<noteq> 0" "- 1022 \<le> binade x" "\<bar>x\<bar> = of_int K * 2 powi (binade x - 52)"
  shows "nearest64 x = x"
proof -
  have "\<bar>x\<bar> / 2 powi (binade x - 52) = of_int K"
    by (subst assms(3)) simp
  then have "nearest64 x = sgn x * \<bar>x\<bar>"
    using nearest64_normal [OF assms(1,2)] assms(3) by (simp add: round_to_even_of_int)
  then show ?thesis by (simp add: sgn_mult_abs)
qed

lemma nearest64_close:
  assumes "x \<noteq> 0" "- 1022 \<le> binade x"
    and "\<bar>\<bar>x\<bar> / 2 powi (binade x - 52) - of_int K\<bar> < 1 / 2"
  shows "nearest64 x = sgn x * (of_int K * 2 powi (binade x - 52))"
  using nearest64_normal [OF assms(1,2)] round_to_even_close [OF assms(3)] by simp

lemma binade_half:
  assumes "x \<noteq> 0"
  shows "binade (x / 2) = binade x - 1"
proof (rule binade_unique)
  show "2 powi (binade x - 1) \<le> \<bar>x / 2\<bar>"
    using binade_bounds(1) [OF assms] by (simp add: two_powi_pred)
  show "\<bar>x / 2\<bar> < 2 powi (binade x - 1 + 1)"
    using binade_bounds(2) [OF assms] by (simp add: two_powi_Suc)
qed

lemma nearest64_half:
  assumes "x \<noteq> 0" "- 1021 \<le> binade x"
  shows "nearest64 (x / 2) = nearest64 x / 2"
proof -
  define u :: rat where "u = 2 powi (binade x - 52)"
  have b: "binade (x / 2) - 52 = binade x - 53"
    using binade_half [OF assms(1)] by simp
  have u: "(2::rat) powi (binade x - 53) = u / 2"
    by (simp add: u_def power_int_diff)
  have q: "\<bar>x / 2\<bar> / (u / 2) = \<bar>x\<bar> / u" by simp
  have "nearest64 (x / 2) =
      sgn (x / 2) * (of_int (round_to_even (\<bar>x / 2\<bar> / 2 powi (binade (x / 2) - 52))) *
        2 powi (binade (x / 2) - 52))"
    using assms binade_half [OF assms(1)] by (intro nearest64_normal) simp_all
  also have "\<dots> = sgn x * (of_int (round_to_even (\<bar>x\<bar> / u)) * (u / 2))"
    unfolding b u q by (simp add: sgn_divide)
  also have "\<dots> = sgn x * (of_int (round_to_even (\<bar>x\<bar> / u)) * u) / 2"
    by simp
  also have "\<dots> = nearest64 x / 2"
    using assms by (subst nearest64_normal [of x]) (simp_all add: u_def)
  finally show ?thesis .
qed

lemma nearest64_representable:
  assumes "x \<noteq> 0" "- 1022 \<le> binade x"
  shows "nearest64 x \<noteq> 0" "binade x \<le> binade (nearest64 x)"
    "nearest64 (nearest64 x) = nearest64 x"
proof -
  define u :: rat where "u = 2 powi (binade x - 52)"
  define M where "M = round_to_even (\<bar>x\<bar> / u)"
  define y where "y = nearest64 x"
  have u: "0 < u" by (simp add: u_def)
  have lo: "(2::rat) ^ 52 * u = 2 powi binade x"
    by (simp add: u_def power_int_diff)
  have hi: "(2::rat) ^ 53 * u = 2 powi (binade x + 1)"
    by (simp add: u_def power_int_diff power_int_add)
  have "of_int (2 ^ 52) \<le> \<bar>x\<bar> / u" "\<bar>x\<bar> / u \<le> of_int (2 ^ 53)"
    using significand_range [OF assms(1)] by (simp_all add: u_def)
  then have M: "2 ^ 52 \<le> M" "M \<le> 2 ^ 53"
    unfolding M_def by (rule round_to_even_range)+
  have y: "y = sgn x * (of_int M * u)"
    using nearest64_normal [OF assms] by (simp add: y_def M_def u_def)
  have Mpos: "(0::rat) < of_int M" using M(1) by simp
  have ay: "\<bar>y\<bar> = of_int M * u"
    using assms(1) u Mpos by (simp add: y abs_mult abs_sgn_eq)
  have ypos: "0 < \<bar>y\<bar>" unfolding ay using u Mpos by simp
  then have nz: "y \<noteq> 0" by simp
  have ge: "2 powi binade x \<le> \<bar>y\<bar>"
  proof -
    have "(2::rat) ^ 52 \<le> of_int M" using M(1) by (metis of_int_le_iff of_int_numeral of_int_power)
    then have "(2::rat) ^ 52 * u \<le> of_int M * u" using u by (intro mult_right_mono) simp_all
    then show ?thesis by (simp only: lo ay)
  qed
  have "binade x \<le> binade y \<and> nearest64 y = y"
  proof (cases "M = 2 ^ 53")
    case True
    then have top: "\<bar>y\<bar> = 2 powi (binade x + 1)" by (simp add: ay hi [symmetric])
    have b: "binade y = binade x + 1"
    proof (rule binade_unique)
      show "2 powi (binade x + 1) \<le> \<bar>y\<bar>" by (simp add: top)
      show "\<bar>y\<bar> < 2 powi (binade x + 1 + 1)" by (simp add: top two_powi_less)
    qed
    have "\<bar>y\<bar> = of_int (2 ^ 52) * 2 powi (binade y - 52)"
      by (simp add: top b power_int_diff power_int_add)
    then have "nearest64 y = y"
      using nz assms(2) b by (intro nearest64_grid) simp_all
    with b show ?thesis by simp
  next
    case False
    with M(2) have "M < 2 ^ 53" by simp
    then have "(of_int M :: rat) < 2 ^ 53" by (metis of_int_less_iff of_int_numeral of_int_power)
    then have "of_int M * u < 2 ^ 53 * u" using u by (intro mult_strict_right_mono)
    then have lt: "\<bar>y\<bar> < 2 powi (binade x + 1)" by (simp only: hi ay)
    have b: "binade y = binade x" using ge lt by (rule binade_unique)
    have "\<bar>y\<bar> = of_int M * 2 powi (binade y - 52)" by (simp add: ay b u_def)
    then have "nearest64 y = y"
      using nz assms(2) b by (intro nearest64_grid) simp_all
    with b show ?thesis by simp
  qed
  then show "nearest64 x \<noteq> 0" "binade x \<le> binade (nearest64 x)"
    "nearest64 (nearest64 x) = nearest64 x"
    using nz by (simp_all add: y_def)
qed

lemma nearest64_halves:
  assumes "x \<noteq> 0" "- 1020 \<le> binade x"
  shows "nearest64 (nearest64 x / 2) = nearest64 x / 2"
    "nearest64 (nearest64 x / 4) = nearest64 x / 4"
    "nearest64 (x / 4) = nearest64 x / 4"
proof -
  define y where "y = nearest64 x"
  have n: "- 1022 \<le> binade x" using assms(2) by simp
  note r = nearest64_representable [OF assms(1) n, folded y_def]
  have ybin: "- 1020 \<le> binade y" using r(2) assms(2) by simp
  have 1: "nearest64 (y / 2) = y / 2"
    using nearest64_half [of y] r ybin by simp
  have y2: "y / 2 \<noteq> 0" using r(1) by simp
  have b2: "binade (y / 2) = binade y - 1" by (rule binade_half [OF r(1)])
  have q: "z / 2 / 2 = z / 4" for z :: rat by simp
  have "nearest64 (y / 2 / 2) = nearest64 (y / 2) / 2"
    using y2 b2 ybin by (intro nearest64_half) simp_all
  then have 2: "nearest64 (y / 4) = y / 4" by (simp only: 1 q)
  have x2: "x / 2 \<noteq> 0" using assms(1) by simp
  have bx2: "binade (x / 2) = binade x - 1" by (rule binade_half [OF assms(1)])
  have "nearest64 (x / 2 / 2) = nearest64 (x / 2) / 2"
    using x2 bx2 assms(2) by (intro nearest64_half) simp_all
  also have "nearest64 (x / 2) = nearest64 x / 2"
    using assms by (intro nearest64_half) simp_all
  finally have 3: "nearest64 (x / 4) = y / 4" by (simp only: q y_def)
  from 1 2 3 show "nearest64 (nearest64 x / 2) = nearest64 x / 2"
    "nearest64 (nearest64 x / 4) = nearest64 x / 4"
    "nearest64 (x / 4) = nearest64 x / 4"
    by (simp_all only: y_def)
qed

lemma binary64_finite:
  assumes "\<bar>nearest64 v\<bar> < 2 powi 54"
  shows "binary64 v = Num (nearest64 v)"
proof -
  have "(2::rat) powi 54 \<le> 2 powi 1024" by (simp only: two_powi_le)
  with assms have "\<bar>nearest64 v\<bar> < 2 powi 1024" by simp
  then have "\<not> 2 powi 1024 \<le> nearest64 v" "\<not> nearest64 v \<le> - (2 powi 1024)"
    by linarith+
  then show ?thesis by (simp only: binary64_def Let_def if_False)
qed

subsection \<open>Integers in binary64\<close>

text \<open>
  An integer of magnitude up to \<open>2\<^sup>5\<^sup>3\<close> is a binary64 number, so a sum or difference of
  integers that stays in this range is exact.
\<close>

lemma nearest64_0 [simp]: "nearest64 0 = 0"
  by (simp add: nearest64_def)

lemma nearest64_of_int:
  assumes "\<bar>k\<bar> \<le> 2 ^ 53"
  shows "nearest64 (of_int k) = of_int k"
proof (cases "k = 0")
  case True
  then show ?thesis by simp
next
  case False
  define x :: rat where "x = of_int k"
  define e where "e = binade x"
  define u :: rat where "u = 2 powi (e - 52)"
  have nz: "x \<noteq> 0" using False by (simp add: x_def)
  have "1 \<le> \<bar>k\<bar>" using False by simp
  then have "(of_int 1 :: rat) \<le> of_int \<bar>k\<bar>" by (simp only: of_int_le_iff)
  then have k1: "(1::rat) \<le> \<bar>x\<bar>" by (simp add: x_def)
  have "(of_int \<bar>k\<bar> :: rat) \<le> of_int (2 ^ 53)" using assms by (simp only: of_int_le_iff)
  then have k2: "\<bar>x\<bar> \<le> 2 ^ 53" by (simp add: x_def)
  note b = binade_bounds [OF nz, folded e_def]
  have "(2::rat) powi 0 \<le> \<bar>x\<bar>" using k1 by simp
  with b(2) have "(2::rat) powi 0 < 2 powi (e + 1)" by linarith
  then have "0 < e + 1" by (simp only: two_powi_less)
  then have e0: "0 \<le> e" by simp
  have "(2::rat) powi e \<le> 2 powi 53" using b(1) k2 by simp
  then have e53: "e \<le> 53" by (simp only: two_powi_le)
  have upos: "0 < u" by (simp add: u_def)
  have "\<exists>K. \<bar>x\<bar> = of_int K * u"
  proof (cases "e = 53")
    case True
    have "(2::rat) ^ 53 \<le> \<bar>x\<bar>" using b(1) True by simp
    with k2 have "\<bar>x\<bar> = 2 ^ 53" by simp
    then have "\<bar>x\<bar> = of_int (2 ^ 52) * u" by (simp add: u_def True)
    then show ?thesis ..
  next
    case False
    with e53 have e52: "e \<le> 52" by simp
    have uinv: "1 / u = 2 ^ nat (52 - e)"
      using e52 by (simp add: u_def two_powi_nat power_int_diff)
    have "(of_int (\<bar>k\<bar> * 2 ^ nat (52 - e)) :: rat) = \<bar>x\<bar> / u"
      by (simp add: uinv [symmetric] x_def)
    then have "\<bar>x\<bar> = of_int (\<bar>k\<bar> * 2 ^ nat (52 - e)) * u" using upos by simp
    then show ?thesis ..
  qed
  then obtain K where "\<bar>x\<bar> = of_int K * 2 powi (binade x - 52)"
    by (auto simp: u_def e_def)
  then have "nearest64 x = x"
    using nz e0 by (intro nearest64_grid) (simp_all add: e_def)
  then show ?thesis by (simp add: x_def)
qed

lemma nearest64_Ints:
  assumes "x \<in> \<int>" "\<bar>x\<bar> \<le> 2 ^ 53"
  shows "nearest64 x = x"
proof -
  from assms(1) obtain k where x: "x = of_int k" by (rule Ints_cases)
  from assms(2) have "(of_int \<bar>k\<bar> :: rat) \<le> of_int (2 ^ 53)" by (simp add: x)
  then have "\<bar>k\<bar> \<le> 2 ^ 53" by (simp only: of_int_le_iff)
  then show ?thesis unfolding x by (rule nearest64_of_int)
qed

lemma binary64_Ints:
  assumes "x \<in> \<int>" "\<bar>x\<bar> \<le> 2 ^ 53"
  shows "binary64 x = Num x"
proof -
  have n: "nearest64 x = x" using assms by (rule nearest64_Ints)
  have "\<bar>nearest64 x\<bar> < 2 powi 54" using assms(2) by (simp add: n)
  then show ?thesis by (simp add: binary64_finite n)
qed

lemma binary64_of_int: "\<bar>k\<bar> \<le> 2 ^ 53 \<Longrightarrow> binary64 (of_int k) = number k"
proof -
  assume "\<bar>k\<bar> \<le> 2 ^ 53"
  then have "(of_int \<bar>k\<bar> :: rat) \<le> of_int (2 ^ 53)" by (simp only: of_int_le_iff)
  then have "\<bar>of_int k :: rat\<bar> \<le> 2 ^ 53" by simp
  then show ?thesis by (simp add: binary64_Ints number_def)
qed

lemma js_add_number:
  "\<bar>a + b\<bar> \<le> 2 ^ 53 \<Longrightarrow> js_add (number a) (number b) = number (a + b)"
  using binary64_of_int [of "a + b"] by (simp add: number_def)

lemma minus_one_exact: "\<bar>c - 1\<bar> \<le> 2 ^ 53 \<Longrightarrow> minus_one c = c - 1"
  using nearest64_of_int [of "c - 1"] by (simp add: minus_one_def)

lemma binade_minus [simp]: "binade (- x) = binade x"
  by (simp add: binade_def)

lemma nearest64_minus: "nearest64 (- x) = - nearest64 x"
  by (simp add: nearest64_def Let_def)

text \<open>
  The two rounding functions with a shortcut for the integers that are binary64 numbers,
  as equations for evaluation.
\<close>

lemma nearest64_code [code]:
  "nearest64 x =
     (if \<bar>x\<bar> \<le> 9007199254740992 \<and> of_int \<lfloor>x\<rfloor> = x then x
      else if x = 0 then 0
      else let e = max (binade x) (- 1022);
               ulp = 2 powi (e - 52)
           in sgn x * (of_int (round_to_even (\<bar>x\<bar> / ulp)) * ulp))"
proof (cases "\<bar>x\<bar> \<le> 9007199254740992 \<and> of_int \<lfloor>x\<rfloor> = x")
  case True
  then have "x \<in> \<int>" by (metis Ints_of_int)
  with True have "nearest64 x = x" by (intro nearest64_Ints) simp_all
  with True show ?thesis by simp
next
  case False
  have "nearest64 x =
     (if x = 0 then 0
      else let e = max (binade x) (- 1022);
               ulp = 2 powi (e - 52)
           in sgn x * (of_int (round_to_even (\<bar>x\<bar> / ulp)) * ulp))"
    by (rule nearest64_def)
  with False show ?thesis by (simp only: if_False)
qed

lemma binary64_below_overflow:
  assumes "\<bar>nearest64 v\<bar> < 2 powi 1024"
  shows "binary64 v = Num (nearest64 v)"
proof -
  from assms have "\<not> 2 powi 1024 \<le> nearest64 v" "\<not> nearest64 v \<le> - (2 powi 1024)"
    by linarith+
  then show ?thesis by (simp only: binary64_def Let_def if_False)
qed

lemma binary64_middle:
  assumes "1 / 18446744073709551616 \<le> \<bar>x\<bar>" "\<bar>x\<bar> < 18446744073709551616"
  shows "binary64 x = Num (nearest64 x)"
proof -
  have nz: "x \<noteq> 0" using assms(1) by auto
  note b = binade_bounds [OF nz]
  have "(2::rat) powi (- 64) \<le> \<bar>x\<bar>" using assms(1) by (simp add: power_int_minus)
  with b(2) have "(2::rat) powi (- 64) < 2 powi (binade x + 1)" by linarith
  then have "- 64 < binade x + 1" by (simp only: two_powi_less)
  then have lo: "- 1022 \<le> binade x" by simp
  have "\<bar>x\<bar> < 2 powi 64" using assms(2) by simp
  with b(1) have "(2::rat) powi binade x < 2 powi 64" by linarith
  then have hi: "binade x < 64" by (simp only: two_powi_less)
  then have "binade x - 53 \<le> 64" by simp
  then have "(2::rat) powi (binade x - 53) \<le> 2 powi 64" by (simp only: two_powi_le)
  with nearest64_error [OF nz lo] have "\<bar>nearest64 x - x\<bar> \<le> 2 powi 64" by linarith
  with \<open>\<bar>x\<bar> < 2 powi 64\<close> have "\<bar>nearest64 x\<bar> < 2 powi 64 + 2 powi 64" by linarith
  also have "(2::rat) powi 64 + 2 powi 64 = 2 powi 65" by simp
  also have "(2::rat) powi 65 \<le> 2 powi 1024" by (simp only: two_powi_le)
  finally show ?thesis by (rule binary64_below_overflow)
qed

lemma binary64_code [code]:
  "binary64 x =
     (if \<bar>x\<bar> \<le> 9007199254740992 \<and> of_int \<lfloor>x\<rfloor> = x then Num x
      else if 1 / 18446744073709551616 \<le> \<bar>x\<bar> \<and> \<bar>x\<bar> < 18446744073709551616
      then Num (nearest64 x)
      else let y = nearest64 x
           in if 2 powi 1024 \<le> y then PosInf
              else if y \<le> - (2 powi 1024) then NegInf
              else Num y)"
proof (cases "\<bar>x\<bar> \<le> 9007199254740992 \<and> of_int \<lfloor>x\<rfloor> = x")
  case True
  then have "x \<in> \<int>" by (metis Ints_of_int)
  with True have "binary64 x = Num x" by (intro binary64_Ints) simp_all
  with True show ?thesis by simp
next
  case False
  show ?thesis
  proof (cases "1 / 18446744073709551616 \<le> \<bar>x\<bar> \<and> \<bar>x\<bar> < 18446744073709551616")
    case True
    then have "binary64 x = Num (nearest64 x)" by (intro binary64_middle) simp_all
    with False True show ?thesis by (simp only: if_False if_True simp_thms)
  next
    case F2: False
    have "binary64 x =
       (let y = nearest64 x
        in if 2 powi 1024 \<le> y then PosInf
           else if y \<le> - (2 powi 1024) then NegInf
           else Num y)"
      by (rule binary64_def)
    with False F2 show ?thesis by (simp only: if_False)
  qed
qed

section \<open>Reduction\<close>

subsection \<open>The factor 0.05 and the two halvings\<close>

lemma double_0_05_bounds: "2 powi (- 5) < double_0_05" "double_0_05 \<le> 1" "0 < double_0_05"
  by (simp_all add: double_0_05_def power_int_minus)

lemma double_0_05_eq: "double_0_05 = 1 / 20 * (1 + 1 / 2 ^ 54)"
  by (simp add: double_0_05_def)

lemma binade_twentieth: "binade (1 / 20) = - 5"
  by (rule binade_unique) (simp_all add: power_int_minus)

lemma nearest64_twentieth: "nearest64 (1 / 20) = double_0_05"
proof -
  have "nearest64 (1 / 20) = sgn (1 / 20) * (of_int 7205759403792794 * 2 powi (binade (1 / 20) - 52))"
    by (rule nearest64_close) (simp_all add: binade_twentieth power_int_minus)
  then show ?thesis by (simp add: binade_twentieth power_int_minus double_0_05_def)
qed

lemma literal_0_05: "binary64 (5 / 100) = Num double_0_05"
proof -
  have "\<bar>nearest64 (1 / 20)\<bar> < 2 powi 54"
    by (simp add: nearest64_twentieth double_0_05_def)
  then have "binary64 (1 / 20) = Num (nearest64 (1 / 20))" by (rule binary64_finite)
  then show ?thesis by (simp add: nearest64_twentieth)
qed

lemma literal_0_0125: "binary64 (125 / 10000) = Num (double_0_05 / 4)"
proof -
  have n: "nearest64 (1 / 20 / 4) = nearest64 (1 / 20) / 4"
    by (rule nearest64_halves(3)) (simp_all add: binade_twentieth)
  have "\<bar>nearest64 (1 / 20 / 4)\<bar> < 2 powi 54"
    unfolding n by (simp add: nearest64_twentieth double_0_05_def)
  then have "binary64 (1 / 20 / 4) = Num (nearest64 (1 / 20 / 4))" by (rule binary64_finite)
  then have "binary64 (1 / 20 / 4) = Num (double_0_05 / 4)"
    by (simp only: n nearest64_twentieth)
  then show ?thesis by simp
qed

lemma binary64_0: "binary64 0 = Num 0"
  by (simp add: binary64_def)

lemma mercy_product:
  fixes c :: int
  defines "x \<equiv> of_int c * double_0_05"
  assumes c: "c \<noteq> 0" "\<bar>c\<bar> < 2 ^ 53"
  shows "x \<noteq> 0" "- 5 \<le> binade x" "binade x \<le> 52" "\<bar>nearest64 x\<bar> < 2 powi 53 + 1"
proof -
  have "1 \<le> \<bar>c\<bar>" using c(1) by simp
  then have "(of_int 1 :: rat) \<le> of_int \<bar>c\<bar>" by (simp only: of_int_le_iff)
  then have c1: "(1::rat) \<le> \<bar>of_int c\<bar>" by simp
  have "(of_int \<bar>c\<bar> :: rat) < of_int (2 ^ 53)" using c(2) by (simp only: of_int_less_iff)
  then have c2: "\<bar>of_int c :: rat\<bar> < 2 ^ 53" by simp
  note d = double_0_05_bounds
  show nz: "x \<noteq> 0" using c(1) d(3) by (simp add: x_def)
  have ax: "\<bar>x\<bar> = \<bar>of_int c\<bar> * double_0_05"
    using d(3) by (simp add: x_def abs_mult)
  have lo: "2 powi (- 5) < \<bar>x\<bar>"
  proof -
    have "(2::rat) powi (- 5) < 1 * double_0_05" using d(1) by simp
    also have "\<dots> \<le> \<bar>of_int c\<bar> * double_0_05"
      using c1 d(3) by (intro mult_right_mono) simp_all
    finally show ?thesis by (simp only: ax)
  qed
  have hi: "\<bar>x\<bar> < 2 powi 53"
  proof -
    have "\<bar>x\<bar> \<le> \<bar>of_int c\<bar> * 1"
      unfolding ax using d(2) by (intro mult_left_mono) simp_all
    also have "\<dots> < 2 powi 53" using c2 by simp
    finally show ?thesis .
  qed
  note b = binade_bounds [OF nz]
  from lo b(2) have "(2::rat) powi (- 5) < 2 powi (binade x + 1)" by linarith
  then have "- 5 < binade x + 1" by (simp only: two_powi_less)
  then show b5: "- 5 \<le> binade x" by simp
  from hi b(1) have "(2::rat) powi binade x < 2 powi 53" by linarith
  then have "binade x < 53" by (simp only: two_powi_less)
  then show b52: "binade x \<le> 52" by simp
  have "binade x - 53 \<le> 0" using b52 by simp
  then have "(2::rat) powi (binade x - 53) \<le> 2 powi 0"
    by (simp only: two_powi_le)
  then have "\<bar>nearest64 x - x\<bar> \<le> 1"
    using nearest64_error [OF nz] b5 by simp
  with hi show "\<bar>nearest64 x\<bar> < 2 powi 53 + 1" by linarith
qed

lemma mercyAmount_eq:
  assumes "\<bar>c\<bar> < 2 ^ 53"
  shows "mercyAmount (number c) = Num (nearest64 (of_int c * double_0_05) / 4)"
    and "js_mul (number c) (binary64 (125 / 10000)) = Num (nearest64 (of_int c * double_0_05) / 4)"
proof -
  define x :: rat where "x = of_int c * double_0_05"
  define y where "y = nearest64 x"
  have small: "(2::rat) powi 53 + 1 \<le> 2 powi 54"
    by simp
  have "mercyAmount (number c) = Num (y / 4) \<and>
        js_mul (number c) (binary64 (125 / 10000)) = Num (y / 4)"
  proof (cases "c = 0")
    case True
    then have "y = 0" by (simp add: y_def x_def)
    then show ?thesis
      unfolding mercyAmount_def number_def literal_0_05 literal_0_0125
      using True by (simp add: binary64_0)
  next
    case False
    note p = mercy_product [OF False assms, folded x_def]
    have yb: "\<bar>y\<bar> < 2 powi 54" using p(4) small by (simp add: y_def)
    have h: "nearest64 (y / 2) = y / 2" "nearest64 (y / 4) = y / 4"
      "nearest64 (x / 4) = y / 4"
      using nearest64_halves [OF p(1)] p(2) by (simp_all add: y_def)
    have 1: "binary64 x = Num y"
      using yb by (simp add: binary64_finite y_def)
    have 2: "binary64 (y / 2) = Num (y / 2)"
      using yb by (subst binary64_finite) (simp_all add: h)
    have 3: "binary64 (y / 4) = Num (y / 4)"
      using yb by (subst binary64_finite) (simp_all add: h)
    have 4: "binary64 (x / 4) = Num (y / 4)"
      using yb by (subst binary64_finite) (simp_all add: h)
    have "mercyAmount (number c) = js_div (js_div (binary64 x) (Num 2)) (Num 2)"
      unfolding mercyAmount_def number_def literal_0_05 by (simp add: x_def)
    also have "\<dots> = Num (y / 4)" by (simp add: 1 2 3)
    finally have m: "mercyAmount (number c) = Num (y / 4)" .
    have "js_mul (number c) (binary64 (125 / 10000)) = binary64 (x / 4)"
      unfolding number_def literal_0_0125 by (simp add: x_def)
    with m 4 show ?thesis by simp
  qed
  then show "mercyAmount (number c) = Num (nearest64 (of_int c * double_0_05) / 4)"
    and "js_mul (number c) (binary64 (125 / 10000)) = Num (nearest64 (of_int c * double_0_05) / 4)"
    by (simp_all add: y_def x_def)
qed


lemma mercy_tie:
  fixes r :: int
  assumes r: "r \<noteq> 0" "\<bar>r\<bar> < 2 ^ 52"
  shows "nearest64 (of_int r * (1 + 1 / 2 ^ 54)) = of_int r"
proof -
  define x :: rat where "x = of_int r * (1 + 1 / 2 ^ 54)"
  define e where "e = binade x"
  define u :: rat where "u = 2 powi (e - 52)"
  have nz: "x \<noteq> 0" using r(1) by (simp add: x_def)
  have ax: "\<bar>x\<bar> = \<bar>of_int r\<bar> * (1 + 1 / 2 ^ 54)"
    by (simp add: x_def abs_mult)
  have "1 \<le> \<bar>r\<bar>" using r(1) by simp
  then have "(of_int 1 :: rat) \<le> of_int \<bar>r\<bar>" by (simp only: of_int_le_iff)
  then have r1: "(1::rat) \<le> \<bar>of_int r\<bar>" by simp
  have "(of_int \<bar>r\<bar> :: rat) < of_int (2 ^ 52)" using r(2) by (simp only: of_int_less_iff)
  then have r2: "\<bar>of_int r :: rat\<bar> < 2 ^ 52" by simp
  have rx: "\<bar>of_int r\<bar> \<le> \<bar>x\<bar>" unfolding ax using r1 by (simp add: algebra_simps)
  note b = binade_bounds [OF nz, folded e_def]
  have "(2::rat) powi 0 \<le> \<bar>x\<bar>" using r1 rx by simp
  with b(2) have "(2::rat) powi 0 < 2 powi (e + 1)" by linarith
  then have "0 < e + 1" by (simp only: two_powi_less)
  then have e0: "0 \<le> e" by simp
  have "\<bar>x\<bar> < 2 ^ 52 * 2" unfolding ax using r2 by (simp add: algebra_simps)
  then have "\<bar>x\<bar> < 2 powi 53" by simp
  with b(1) have "(2::rat) powi e < 2 powi 53" by linarith
  then have "e < 53" by (simp only: two_powi_less)
  then have e52: "e \<le> 52" by simp
  define K where "K = \<bar>r\<bar> * 2 ^ nat (52 - e)"
  have upos: "0 < u" by (simp add: u_def)
  have uinv: "1 / u = 2 ^ nat (52 - e)"
    using e52 by (simp add: u_def two_powi_nat power_int_diff)
  have K: "(of_int K :: rat) = \<bar>of_int r\<bar> / u"
    by (simp add: K_def uinv [symmetric])
  have "\<bar>x\<bar> / u - of_int K = \<bar>of_int r\<bar> / 2 ^ 54 / u"
    by (simp add: K ax algebra_simps diff_divide_distrib add_divide_distrib)
  also have "\<dots> < 2 powi (e + 1) / 2 ^ 54 / u"
    using rx b(2) upos by (intro divide_strict_right_mono) simp_all
  also have "\<dots> = 1 / 2"
    by (simp add: u_def power_int_diff power_int_add)
  finally have "\<bar>x\<bar> / u - of_int K < 1 / 2" .
  moreover have "0 \<le> \<bar>x\<bar> / u - of_int K"
    unfolding K using rx upos by (simp add: divide_right_mono)
  ultimately have close: "\<bar>\<bar>x\<bar> / 2 powi (binade x - 52) - of_int K\<bar> < 1 / 2"
    by (simp add: u_def e_def)
  have "nearest64 x = sgn x * (of_int K * 2 powi (binade x - 52))"
    using nz e0 close by (intro nearest64_close) (simp_all add: e_def)
  also have "\<dots> = sgn x * \<bar>of_int r\<bar>"
    using upos by (simp add: K u_def e_def)
  also have "sgn x = sgn (of_int r)"
    by (simp add: x_def sgn_mult)
  also have "sgn (of_int r :: rat) * \<bar>of_int r\<bar> = of_int r"
    by (simp add: sgn_mult_abs)
  finally show ?thesis by (simp add: x_def)
qed

lemma mercy_exact:
  assumes c: "\<bar>c\<bar> \<le> 2 ^ 52"
  shows "\<lfloor>nearest64 (of_int c * double_0_05) / 4 + 1 / 2\<rfloor> = \<lfloor>(of_int c :: rat) / 80 + 1 / 2\<rfloor>"
proof (cases "c mod 80 = 40")
  case True
  have "c = 80 * (c div 80) + c mod 80" by simp
  with True obtain n where n: "c = 80 * n + 40" by metis
  define r where "r = 4 * n + 2"
  have cr: "c = 20 * r" by (simp add: n r_def)
  have "r \<noteq> 0" unfolding r_def by presburger
  moreover have "\<bar>r\<bar> < 2 ^ 52" using c unfolding cr by simp
  ultimately have tie: "nearest64 (of_int r * (1 + 1 / 2 ^ 54)) = of_int r" by (rule mercy_tie)
  have eq: "of_int c * double_0_05 = of_int r * (1 + 1 / 2 ^ 54)"
    by (simp add: cr double_0_05_eq)
  have y: "nearest64 (of_int c * double_0_05) = of_int r"
    unfolding eq by (rule tie)
  have "(of_int r :: rat) / 4 + 1 / 2 = of_int (n + 1)"
    by (simp add: r_def add_divide_distrib)
  moreover have "(of_int c :: rat) / 80 + 1 / 2 = of_int (n + 1)"
    by (simp add: n add_divide_distrib)
  ultimately show ?thesis by (simp only: y floor_of_int)
next
  case False
  define x :: rat where "x = of_int c * double_0_05"
  define y where "y = nearest64 x"
  define q :: rat where "q = of_int c / 80 + 1 / 2"
  define N where "N = \<lfloor>q\<rfloor>"
  have q80: "80 * q = of_int (c + 40)" by (simp add: q_def)
  have "of_int N \<le> q" "q < of_int N + 1" unfolding N_def by linarith+
  then have "of_int (80 * N) \<le> 80 * q" "80 * q < of_int (80 * N + 80)" by simp_all
  then have "80 * N \<le> c + 40" "c + 40 < 80 * N + 80"
    unfolding q80 by (simp_all only: of_int_le_iff of_int_less_iff)
  moreover have "c + 40 \<noteq> 80 * N"
  proof
    assume "c + 40 = 80 * N"
    then have "c = 40 + 80 * (N - 1)" by simp
    then have "c mod 80 = 40" by (simp only: mod_mult_self2) simp
    with False show False by simp
  qed
  ultimately have "80 * N + 1 \<le> c + 40" "c + 40 \<le> 80 * N + 79" by simp_all
  then have "(of_int (80 * N + 1) :: rat) \<le> of_int (c + 40)"
    "(of_int (c + 40) :: rat) \<le> of_int (80 * N + 79)"
    by (simp_all only: of_int_le_iff)
  then have qN: "of_int N + 1 / 80 \<le> q" "q \<le> of_int N + 79 / 80"
    unfolding q80 [symmetric] by simp_all
  have err: "\<bar>y - of_int c / 20\<bar> < 1 / 20"
  proof (cases "c = 0")
    case True
    then show ?thesis by (simp add: y_def x_def)
  next
    case False
    have c53: "\<bar>c\<bar> < 2 ^ 53" using c by simp
    note p = mercy_product [OF False c53, folded x_def]
    have "(of_int \<bar>c\<bar> :: rat) \<le> of_int (2 ^ 52)" using c by (simp only: of_int_le_iff)
    then have c52: "\<bar>of_int c :: rat\<bar> \<le> 2 ^ 52" by simp
    have ax: "\<bar>x\<bar> = \<bar>of_int c\<bar> / 20 * (1 + 1 / 2 ^ 54)"
      by (simp add: x_def double_0_05_eq abs_mult)
    have half: "(2::rat) powi (binade x - 53) = 2 powi binade x / 2 ^ 53"
      by (simp add: power_int_diff)
    have "\<bar>y - x\<bar> \<le> 2 powi (binade x - 53)"
      unfolding y_def using p(1,2) by (intro nearest64_error) simp_all
    also have "\<dots> \<le> \<bar>x\<bar> / 2 ^ 53"
      unfolding half using binade_bounds(1) [OF p(1)] by (intro divide_right_mono) simp_all
    finally have 1: "\<bar>y - x\<bar> \<le> \<bar>x\<bar> / 2 ^ 53" .
    have 2: "\<bar>x - of_int c / 20\<bar> = \<bar>of_int c\<bar> / 20 / 2 ^ 54"
      by (simp add: x_def double_0_05_eq algebra_simps abs_mult)
    have "\<bar>y - of_int c / 20\<bar> \<le> \<bar>y - x\<bar> + \<bar>x - of_int c / 20\<bar>" by simp
    also have "\<dots> \<le> \<bar>x\<bar> / 2 ^ 53 + \<bar>of_int c\<bar> / 20 / 2 ^ 54" using 1 2 by simp
    also have "\<dots> = \<bar>of_int c\<bar> * ((1 + 1 / 2 ^ 54) / 2 ^ 53 / 20 + 1 / 2 ^ 54 / 20)"
      unfolding ax by (simp add: algebra_simps)
    also have "\<dots> \<le> 2 ^ 52 * ((1 + 1 / 2 ^ 54) / 2 ^ 53 / 20 + 1 / 2 ^ 54 / 20)"
      using c52 by (intro mult_right_mono) simp_all
    also have "\<dots> < 1 / 20" by simp
    finally show ?thesis .
  qed
  have yq: "y / 4 + 1 / 2 = q + (y - of_int c / 20) / 4"
    by (simp add: q_def diff_divide_distrib)
  define d where "d = y - of_int c / 20"
  from err have "\<bar>d\<bar> < 1 / 20" by (simp only: d_def)
  then have d: "- (1 / 20) < d" "d < 1 / 20" by linarith+
  have "of_int N \<le> y / 4 + 1 / 2" "y / 4 + 1 / 2 < of_int N + 1"
    unfolding yq d_def [symmetric] using d qN by linarith+
  then have "\<lfloor>y / 4 + 1 / 2\<rfloor> = N" by (intro floor_unique) simp_all
  then show ?thesis by (simp add: y_def x_def N_def q_def)
qed
section \<open>Hands, totals and the side-bet window\<close>

subsection \<open>Arrays of numbers\<close>

lemma number_distinct [simp]:
  "number k \<noteq> Hole" "number k \<noteq> Undefined" "number k \<noteq> NaN"
  "number k \<noteq> PosInf" "number k \<noteq> NegInf"
  "Hole \<noteq> number k" "Undefined \<noteq> number k" "NaN \<noteq> number k"
  "PosInf \<noteq> number k" "NegInf \<noteq> number k"
  by (simp_all add: number_def)

lemma number_inj [simp]: "number a = number b \<longleftrightarrow> a = b"
  by (simp add: number_def)

lemma number_0: "Num 0 = number 0"
  by (simp add: number_def)

lemma length_spread [simp]: "length (spread a) = length a"
  by (simp add: spread_def)

lemma length_array_map [simp]: "length (array_map f a) = length a"
  by (simp add: array_map_def)

lemma spread_number [simp]: "spread (map number d) = map number d"
  by (simp add: spread_def)

lemma spread_eq_number:
  assumes "spread a = map number d"
  shows "a = map number d"
proof (rule nth_equalityI)
  from assms have "length (spread a) = length (map number d)" by simp
  then show len: "length a = length (map number d)" by simp
  fix i assume i: "i < length a"
  from assms have "spread a ! i = map number d ! i" by simp
  with i len have "(if a ! i = Hole then Undefined else a ! i) = number (d ! i)"
    by (simp add: spread_def)
  then show "a ! i = map number d ! i"
    using i len by (cases "a ! i = Hole") simp_all
qed

lemma entries_number: "entries (map number d) = zip (map number d) [0..<length d]"
  by (auto simp: entries_def filter_id_conv dest!: set_zip_leftD)

lemma element_number: "i < length d \<Longrightarrow> element (map number d) i = number (d ! i)"
  by (simp add: element_def)

lemma entries_index: "(v, i) \<in> set (entries a) \<Longrightarrow> i < length a"
  by (auto simp: entries_def dest: set_zip_rightD)

lemma foldl_fst: "foldl (\<lambda>s (r, i). f s r) a zs = foldl f a (map fst zs)"
  by (induction zs arbitrary: a) auto

lemma map_fst_indices: "map fst (zip xs [0..<length xs]) = xs"
  by (rule nth_equalityI) simp_all

subsection \<open>The sum of a hand\<close>

lemma exact_sum_iff:
  "exact_sum d \<longleftrightarrow> (\<forall>k \<le> length d. \<bar>sum_list (take k d)\<bar> \<le> 2 ^ 53)"
  by (auto simp: exact_sum_def list_all_iff less_Suc_eq_le)

lemma foldl_js_add_number:
  "\<forall>k \<le> length d. \<bar>a + sum_list (take k d)\<bar> \<le> 2 ^ 53 \<Longrightarrow>
   foldl js_add (number a) (map number d) = number (a + sum_list d)"
proof (induction d arbitrary: a)
  case Nil
  then show ?case by simp
next
  case (Cons x d)
  have step: "\<bar>a + x + sum_list (take k d)\<bar> \<le> 2 ^ 53" if "k \<le> length d" for k
  proof -
    from that have "Suc k \<le> length (x # d)" by simp
    with Cons.prems have "\<bar>a + sum_list (take (Suc k) (x # d))\<bar> \<le> 2 ^ 53" by blast
    then show ?thesis by (simp add: add.assoc)
  qed
  have 1: "\<bar>a + x\<bar> \<le> 2 ^ 53" using step [of 0] by simp
  have 2: "\<forall>k \<le> length d. \<bar>a + x + sum_list (take k d)\<bar> \<le> 2 ^ 53"
    using step by blast
  have "foldl js_add (number a) (map number (x # d)) =
        foldl js_add (number (a + x)) (map number d)"
    by (simp add: js_add_number [OF 1])
  also have "\<dots> = number (a + x + sum_list d)" using 2 by (rule Cons.IH)
  finally show ?case by (simp add: add.assoc)
qed

lemma hand_total:
  assumes "exact_sum d"
  shows "foldl (\<lambda>sum (result, idx). js_add sum result) (Num 0) (entries (map number d)) =
         number (sum_list d)"
proof -
  have "foldl (\<lambda>sum (result, idx). js_add sum result) (Num 0) (entries (map number d)) =
        foldl js_add (number 0) (map number d)"
    by (simp only: entries_number foldl_fst number_0)
       (metis length_map map_fst_indices)
  also have "\<dots> = number (0 + sum_list d)"
    using assms by (intro foldl_js_add_number) (simp add: exact_sum_iff)
  finally show ?thesis by simp
qed

lemma strict_equal_number [simp]: "strict_equal (number a) (Num 0) \<longleftrightarrow> a = 0"
  by (simp add: strict_equal_def number_def)

subsection \<open>Adding a hand to the totals\<close>

lemma add_results_number:
  assumes "length xs = length rs" "\<forall>i < length xs. \<bar>xs ! i + rs ! i\<bar> \<le> 2 ^ 53"
  shows "add_results (map number xs) (map number rs) =
         map number (map (\<lambda>(x, r). x + r) (zip xs rs))"
proof (rule nth_equalityI)
  show "length (add_results (map number xs) (map number rs)) =
        length (map number (map (\<lambda>(x, r). x + r) (zip xs rs)))"
    using assms(1) by (simp add: add_results_def)
  fix i assume "i < length (add_results (map number xs) (map number rs))"
  then have i: "i < length xs" by (simp add: add_results_def)
  with assms(2) have b: "\<bar>xs ! i + rs ! i\<bar> \<le> 2 ^ 53" by simp
  show "add_results (map number xs) (map number rs) ! i =
        map number (map (\<lambda>(x, r). x + r) (zip xs rs)) ! i"
    using i assms(1) by (simp add: add_results_def array_map_def element_number js_add_number [OF b])
qed

lemma length_add_step:
  "\<forall>(v, i) \<in> set zs. i < length t \<Longrightarrow>
   length (foldl (\<lambda>totals (amount, playerIdx).
              array_set Hole totals playerIdx (js_add (element totals playerIdx) amount)) t zs) =
   length t"
proof (induction zs arbitrary: t)
  case Nil
  then show ?case by simp
next
  case (Cons z zs)
  obtain v i where z: "z = (v, i)" by (cases z)
  with Cons.prems have i: "i < length t" by simp
  let ?t = "array_set Hole t i (js_add (element t i) v)"
  have len: "length ?t = length t" using i by (simp add: array_set_def)
  have "\<forall>(v, i) \<in> set zs. i < length ?t" using Cons.prems len by simp
  from Cons.IH [OF this] show ?case by (simp add: z len)
qed

lemma length_add_hand:
  "length (playerResults h) \<le> length t \<Longrightarrow> length (add_hand t h) = length t"
  unfolding add_hand_def
  by (rule length_add_step) (auto dest: entries_index)

lemma length_sum_results:
  "list_all (\<lambda>h. length (playerResults h) \<le> length t) hs \<Longrightarrow>
   length (sum_results t hs) = length t"
proof (induction hs arbitrary: t)
  case Nil
  then show ?case by (simp add: sum_results_def)
next
  case (Cons h hs)
  then have "length (add_hand t h) = length t" by (simp add: length_add_hand)
  with Cons.prems Cons.IH [of "add_hand t h"] show ?case
    by (simp add: sum_results_def)
qed

lemma add_prefix:
  "k \<le> length as \<Longrightarrow> length as \<le> length t \<Longrightarrow>
   foldl (\<lambda>totals (amount, playerIdx).
            array_set Hole totals playerIdx (js_add (element totals playerIdx) amount)) t
     (zip (take k as) [0..<k]) =
   map (\<lambda>i. js_add (element t i) (as ! i)) [0..<k] @ drop k t"
proof (induction k)
  case 0 then show ?case by simp
next
  case (Suc k)
  then have k: "k < length as" "k < length t" by simp_all
  have z: "zip (take (Suc k) as) [0..<Suc k] = zip (take k as) [0..<k] @ [(as ! k, k)]"
    using k by (simp add: take_Suc_conv_app_nth)
  have IH: "foldl (\<lambda>totals (amount, playerIdx).
            array_set Hole totals playerIdx (js_add (element totals playerIdx) amount)) t
     (zip (take k as) [0..<k]) =
   map (\<lambda>i. js_add (element t i) (as ! i)) [0..<k] @ drop k t"
    using Suc by simp
  let ?m = "map (\<lambda>i. js_add (element t i) (as ! i)) [0..<k]"
  have e: "element (?m @ drop k t) k = element t k"
    using k by (simp add: element_def nth_append)
  have "array_set Hole (?m @ drop k t) k (js_add (element t k) (as ! k)) =
        (?m @ [js_add (element t k) (as ! k)]) @ drop (Suc k) t"
    using k by (simp add: array_set_def list_update_append Cons_nth_drop_Suc [symmetric])
  then show ?case
    unfolding z foldl_append IH by (simp add: e)
qed

lemma add_hand_number:
  assumes h: "playerResults h = map number d" and len: "length d = length t"
    and b: "\<forall>p < length t. \<bar>t ! p + d ! p\<bar> \<le> 2 ^ 53"
  shows "add_hand (map number t) h = map number (map (\<lambda>(x, a). x + a) (zip t d))"
proof -
  have "add_hand (map number t) h =
        map (\<lambda>i. js_add (element (map number t) i) (map number d ! i)) [0..<length d] @
          drop (length d) (map number t)"
    using add_prefix [of "length d" "map number d" "map number t"] len
    by (simp add: add_hand_def h entries_number)
  also have "\<dots> = map number (map (\<lambda>(x, a). x + a) (zip t d))"
    using len b by (auto intro!: nth_equalityI simp: element_number js_add_number)
  finally show ?thesis .
qed

lemma length_replay [simp]: "length (replay n ds) = n"
  by (simp add: replay_def)

lemma nth_replay: "p < n \<Longrightarrow> replay n ds ! p = sum_list (map (\<lambda>d. d ! p) ds)"
  by (simp add: replay_def)

lemma replay_Nil: "replay n [] = replicate n 0"
  by (auto simp: replay_def intro!: nth_equalityI)

lemma exact_range_nth:
  "exact_range n ds \<Longrightarrow> p < n \<Longrightarrow> k \<le> length ds \<Longrightarrow>
   \<bar>sum_list (map (\<lambda>d. d ! p) (take k ds))\<bar> \<le> 2 ^ 53"
  by (simp add: exact_range_def list_all_iff exact_sum_iff take_map)

lemma exact_range_butlast: "exact_range n (ds @ [d]) \<Longrightarrow> exact_range n ds"
  unfolding exact_range_def list_all_iff exact_sum_iff
proof (intro ballI allI impI)
  fix p k assume a: "\<forall>p\<in>set [0..<n]. \<forall>k \<le> length (map (\<lambda>d. d ! p) (ds @ [d])).
      \<bar>sum_list (take k (map (\<lambda>d. d ! p) (ds @ [d])))\<bar> \<le> 2 ^ 53"
    and p: "p \<in> set [0..<n]" and k: "k \<le> length (map (\<lambda>d. d ! p) ds)"
  from k have "k \<le> length (map (\<lambda>d. d ! p) (ds @ [d]))" by simp
  with a p have "\<bar>sum_list (take k (map (\<lambda>d. d ! p) (ds @ [d])))\<bar> \<le> 2 ^ 53" by blast
  with k show "\<bar>sum_list (take k (map (\<lambda>d. d ! p) ds))\<bar> \<le> 2 ^ 53" by simp
qed

lemma recorded_Nil [simp]: "recorded [] ds \<longleftrightarrow> ds = []"
  by (auto simp: recorded_def)

lemma recorded_snoc:
  "recorded (hs @ [h]) ds \<longleftrightarrow>
   (\<exists>ds' d. ds = ds' @ [d] \<and> recorded hs ds' \<and> playerResults h = map number d)"
proof
  assume r: "recorded (hs @ [h]) ds"
  then have "length ds = length hs + 1"
    unfolding recorded_def by (metis length_append_singleton length_map Suc_eq_plus1)
  then have "ds \<noteq> []" by auto
  then obtain ds' d where ds: "ds = ds' @ [d]" by (metis rev_exhaust)
  from r show "\<exists>ds' d. ds = ds' @ [d] \<and> recorded hs ds' \<and> playerResults h = map number d"
    unfolding ds recorded_def by simp
next
  assume "\<exists>ds' d. ds = ds' @ [d] \<and> recorded hs ds' \<and> playerResults h = map number d"
  then show "recorded (hs @ [h]) ds" by (auto simp: recorded_def)
qed

lemma recorded_Cons:
  "recorded (h # hs) ds \<longleftrightarrow>
   (\<exists>d ds'. ds = d # ds' \<and> playerResults h = map number d \<and> recorded hs ds')"
  by (cases ds) (auto simp: recorded_def)

lemma recorded_length:
  "recorded hs ds \<Longrightarrow> list_all (\<lambda>h. length (playerResults h) = n) hs \<Longrightarrow>
   list_all (\<lambda>d. length d = n) ds"
proof (induction hs arbitrary: ds)
  case Nil
  then show ?case by simp
next
  case (Cons h hs)
  from Cons.prems(1) obtain d ds' where ds: "ds = d # ds'"
    "playerResults h = map number d" "recorded hs ds'"
    by (auto simp: recorded_Cons)
  from Cons.prems(2) ds(2) have "length d = n"
    by simp
  moreover have "list_all (\<lambda>d. length d = n) ds'"
    using Cons.IH [OF ds(3)] Cons.prems(2) by simp
  ultimately show ?case by (simp add: ds(1))
qed

lemma sum_results_number:
  assumes "recorded hs ds" "list_all (\<lambda>d. length d = length t) ds"
    and "\<forall>p < length t. \<forall>k \<le> length ds.
           \<bar>t ! p + sum_list (map (\<lambda>d. d ! p) (take k ds))\<bar> \<le> 2 ^ 53"
  shows "sum_results (map number t) hs =
         map number (map (\<lambda>p. t ! p + sum_list (map (\<lambda>d. d ! p) ds)) [0..<length t])"
  using assms
proof (induction hs arbitrary: t ds)
  case Nil
  then show ?case by (auto simp: sum_results_def intro!: nth_equalityI)
next
  case (Cons h hs)
  from Cons.prems(1) obtain d ds' where ds: "ds = d # ds'"
    and h: "playerResults h = map number d" and r: "recorded hs ds'"
    by (auto simp: recorded_Cons)
  from Cons.prems(2) have len: "length d = length t"
    and lens: "list_all (\<lambda>d. length d = length t) ds'" by (simp_all add: ds)
  let ?t = "map (\<lambda>(x, a). x + a) (zip t d)"
  have step: "\<bar>t ! p + d ! p + sum_list (map (\<lambda>d. d ! p) (take k ds'))\<bar> \<le> 2 ^ 53"
    if "p < length t" "k \<le> length ds'" for p k
  proof -
    from that(2) have "Suc k \<le> length ds" by (simp add: ds)
    with Cons.prems(3) that(1)
    have "\<bar>t ! p + sum_list (map (\<lambda>d. d ! p) (take (Suc k) ds))\<bar> \<le> 2 ^ 53" by blast
    then show ?thesis by (simp add: ds add.assoc)
  qed
  have b: "\<forall>p < length t. \<bar>t ! p + d ! p\<bar> \<le> 2 ^ 53"
    using step [of _ 0] by simp
  have lt: "length ?t = length t" using len by simp
  have lens': "list_all (\<lambda>d. length d = length ?t) ds'"
    using lens by (simp only: lt)
  have b': "\<forall>p < length ?t. \<forall>k \<le> length ds'.
      \<bar>?t ! p + sum_list (map (\<lambda>d. d ! p) (take k ds'))\<bar> \<le> 2 ^ 53"
  proof (intro allI impI)
    fix p k assume p: "p < length ?t" and k: "k \<le> length ds'"
    from p lt have p': "p < length t" by simp
    have "?t ! p = t ! p + d ! p" using p len by simp
    with step [OF p' k] show "\<bar>?t ! p + sum_list (map (\<lambda>d. d ! p) (take k ds'))\<bar> \<le> 2 ^ 53"
      by simp
  qed
  have "sum_results (map number t) (h # hs) = sum_results (add_hand (map number t) h) hs"
    by (simp add: sum_results_def)
  also have "add_hand (map number t) h = map number ?t"
    using h len b by (rule add_hand_number)
  also have "sum_results (map number ?t) hs =
      map number (map (\<lambda>p. ?t ! p + sum_list (map (\<lambda>d. d ! p) ds')) [0..<length ?t])"
    using r lens' b' by (rule Cons.IH)
  also have "\<dots> = map number (map (\<lambda>p. t ! p + sum_list (map (\<lambda>d. d ! p) ds)) [0..<length t])"
    using len by (auto simp: ds lt)
  finally show ?case .
qed

lemma sum_results_replay:
  assumes "recorded hs ds" "list_all (\<lambda>d. length d = n) ds" "exact_range n ds"
  shows "sum_results (replicate n (Num 0)) hs = map number (replay n ds)"
proof -
  have z: "replicate n (Num 0) = map number (replicate n 0)"
    by (simp add: number_def)
  have b: "\<forall>p < length (replicate n (0::int)). \<forall>k \<le> length ds.
      \<bar>replicate n 0 ! p + sum_list (map (\<lambda>d. d ! p) (take k ds))\<bar> \<le> 2 ^ 53"
    using exact_range_nth [OF assms(3)] by simp
  have l: "list_all (\<lambda>d. length d = length (replicate n (0::int))) ds"
    using assms(2) by simp
  have "sum_results (map number (replicate n 0)) hs =
        map number (map (\<lambda>p. replicate n 0 ! p + sum_list (map (\<lambda>d. d ! p) ds))
          [0..<length (replicate n (0::int))])"
    using assms(1) l b by (rule sum_results_number)
  also have "\<dots> = map number (replay n ds)"
    by (simp add: replay_def)
  finally show ?thesis by (simp only: z)
qed

subsection \<open>The players in first place\<close>

lemma foldl_max_Max: "foldl max (x::int) xs = Max (set (x # xs))"
proof (induction xs arbitrary: x)
  case Nil then show ?case by simp
next
  case (Cons y ys)
  have "foldl max x (y # ys) = Max (set (max x y # ys))" by (simp add: Cons.IH)
  also have "\<dots> = Max (set (x # y # ys))"
    by (cases "ys = []") (simp_all add: max.assoc)
  finally show ?case .
qed

lemma foldl_js_max_number:
  "foldl js_max (number x) (map number xs) = number (foldl max x xs)"
  by (induction xs arbitrary: x) (simp_all add: number_def of_int_max [symmetric])

lemma Math_max_number:
  "Math_max (map number xs) = (if xs = [] then NegInf else number (Max (set xs)))"
proof (cases xs)
  case Nil
  then show ?thesis by (simp add: Math_max_def)
next
  case (Cons x xs')
  have "Math_max (map number (x # xs')) = foldl js_max (number x) (map number xs')"
    by (simp add: Math_max_def number_def)
  then show ?thesis
    by (simp add: Cons foldl_js_max_number foldl_max_Max)
qed

lemma is_Math_max:
  assumes "i < length xs"
  shows "strict_equal (number (xs ! i)) (Math_max (map number xs)) \<longleftrightarrow>
         (\<forall>j < length xs. xs ! j \<le> xs ! i)"
proof -
  from assms have ne: "xs \<noteq> []" and mem: "xs ! i \<in> set xs" by auto
  have "xs ! i = Max (set xs) \<longleftrightarrow> (\<forall>x \<in> set xs. x \<le> xs ! i)"
  proof
    assume "xs ! i = Max (set xs)"
    then show "\<forall>x \<in> set xs. x \<le> xs ! i" by simp
  next
    assume "\<forall>x \<in> set xs. x \<le> xs ! i"
    then show "xs ! i = Max (set xs)" using mem by (intro Max_eqI [symmetric]) simp_all
  qed
  also have "\<dots> \<longleftrightarrow> (\<forall>j < length xs. xs ! j \<le> xs ! i)"
    by (simp add: all_set_conv_all_nth)
  finally show ?thesis using ne by (simp add: Math_max_number strict_equal_def)
qed

lemma zip_indices_number:
  "zip (map number xs) [0..<length xs] = map (\<lambda>i. (number (xs ! i), i)) [0..<length xs]"
  by (rule nth_equalityI) simp_all

lemma first_place_number:
  "first_place (map number totals) =
   filter (\<lambda>i. \<forall>j < length totals. totals ! j \<le> totals ! i) [0..<length totals]"
proof -
  have "first_place (map number totals) =
        filter (\<lambda>i. strict_equal (number (totals ! i)) (Math_max (map number totals)))
          [0..<length totals]"
    by (simp add: first_place_def entries_number zip_indices_number filter_map comp_def)
  also have "\<dots> = filter (\<lambda>i. \<forall>j < length totals. totals ! j \<le> totals ! i) [0..<length totals]"
    by (rule filter_cong) (simp_all add: is_Math_max)
  finally show ?thesis .
qed

lemma first_place_bound: "list_all (\<lambda>idx. idx < length totals) (first_place totals)"
  by (auto simp: first_place_def Let_def list_all_iff dest: entries_index)

lemma winner_initials_eq:
  "length totals \<le> length names \<Longrightarrow>
   winner_initials up names (first_place totals) =
   Inr (map (\<lambda>idx. up (charAt (names ! idx) 0)) (first_place totals))"
  using first_place_bound [of totals]
  by (auto simp: winner_initials_def list_all_iff)

subsection \<open>Submitting a hand\<close>

lemma submit_rejected:
  "\<not> strict_equal (foldl (\<lambda>sum (result, idx). js_add sum result) (Num 0)
                      (entries (handResults s))) (Num 0) \<Longrightarrow>
   handleSubmitHand up now s = Inl (Alert ''Error'' ''Hand results must sum to zero.'')"
  by (simp add: handleSubmitHand_def)

lemma complete_rowie_eq:
  assumes names: "length (playerNames s) = numPlayers s"
    and window: "list_all (\<lambda>h. length (playerResults h) \<le> numPlayers s)
                   (drop (startHand (rowieSettings s)) (hands s))"
    and new: "length (playerResults newHand) \<le> numPlayers s"
  shows "complete_rowie up s newHand =
     Inr \<lparr>rowieNumber = length (completedRowies s) + 1,
          firstHand = startHand (rowieSettings s) + 1,
          endHand = length (hands s) + 1,
          rowieValue = potAmount (rowieSettings s),
          winners = map (\<lambda>idx. up (charAt (playerNames s ! idx) 0))
            (first_place (sum_results (replicate (numPlayers s) (Num 0))
               (drop (startHand (rowieSettings s)) (hands s) @ [newHand])))\<rparr>"
proof -
  let ?rs = "drop (startHand (rowieSettings s)) (hands s) @ [newHand]"
  let ?t = "replicate (numPlayers s) (Num 0)"
  have "list_all (\<lambda>h. length (playerResults h) \<le> length ?t) ?rs"
    using window new by simp
  then have "length (sum_results ?t ?rs) = length ?t" by (rule length_sum_results)
  then have "length (sum_results ?t ?rs) \<le> length (playerNames s)"
    using names by simp
  then have win: "winner_initials up (playerNames s) (first_place (sum_results ?t ?rs)) =
      Inr (map (\<lambda>idx. up (charAt (playerNames s ! idx) 0)) (first_place (sum_results ?t ?rs)))"
    by (rule winner_initials_eq)
  show ?thesis
    by (simp add: complete_rowie_def Let_def win)
qed

lemma submit_accepted:
  assumes names: "length (playerNames s) = numPlayers s"
    and window: "list_all (\<lambda>h. length (playerResults h) \<le> numPlayers s)
                   (drop (startHand (rowieSettings s)) (hands s))"
    and new: "length (handResults s) \<le> numPlayers s"
    and zero: "strict_equal (foldl (\<lambda>sum (result, idx). js_add sum result) (Num 0)
                      (entries (handResults s))) (Num 0)"
  shows "handleSubmitHand up now s =
     Inr (s\<lparr>hands := hands s @ [\<lparr>playerResults = spread (handResults s), date = now\<rparr>],
            currentHandIndex := int (length (hands s)),
            chips := add_results (chips s) (handResults s),
            rowie := (if window_open s
                      then add_results (rowie s) (handResults s)
                      else rowie s),
            completedRowies :=
              (if currentHand (rowieSettings s) = 1
               then completedRowies s @
                 [\<lparr>rowieNumber = length (completedRowies s) + 1,
                   firstHand = startHand (rowieSettings s) + 1,
                   endHand = length (hands s) + 1,
                   rowieValue = potAmount (rowieSettings s),
                   winners = map (\<lambda>idx. up (charAt (playerNames s ! idx) 0))
                     (first_place (sum_results (replicate (numPlayers s) (Num 0))
                        (drop (startHand (rowieSettings s)) (hands s) @
                           [\<lparr>playerResults = spread (handResults s), date = now\<rparr>])))\<rparr>]
               else completedRowies s),
            rowieSettings :=
              (if currentHand (rowieSettings s) = 1
               then (rowieSettings s)\<lparr>currentHand := 0, isComplete := True\<rparr>
               else if window_open s
               then (rowieSettings s)\<lparr>currentHand := minus_one (currentHand (rowieSettings s))\<rparr>
               else if isComplete (rowieSettings s)
               then (rowieSettings s)\<lparr>isComplete := False\<rparr>
               else rowieSettings s),
            handResults := replicate (numPlayers s) (Num 0)\<rparr>)"
proof -
  let ?h = "\<lparr>playerResults = spread (handResults s), date = now\<rparr>"
  have len: "length (playerResults ?h) \<le> numPlayers s" using new by simp
  note closed = complete_rowie_eq [OF names window len]
  consider "currentHand (rowieSettings s) = 1" | "1 < currentHand (rowieSettings s)"
    | "currentHand (rowieSettings s) \<le> 0" by linarith
  then show ?thesis
  proof cases
    case 1
    then show ?thesis
      by (simp add: handleSubmitHand_def Let_def zero closed update_rowie_def window_open_def)
  next
    case 2
    then show ?thesis
      by (simp add: handleSubmitHand_def Let_def zero update_rowie_def window_open_def)
  next
    case 3
    then show ?thesis
      by (simp add: handleSubmitHand_def Let_def zero update_rowie_def window_open_def)
  qed
qed

lemma well_formed_window:
  assumes "well_formed s"
  shows "length (playerNames s) = numPlayers s"
    "list_all (\<lambda>h. length (playerResults h) \<le> numPlayers s)
       (drop (startHand (rowieSettings s)) (hands s))"
    "length (handResults s) \<le> numPlayers s"
  using assms by (auto simp: well_formed_def list_all_iff dest: in_set_dropD)

subsection \<open>The state of a game in progress is kept by every event\<close>

lemma in_game_initial: "in_game initialApp"
  by (simp add: in_game_def well_formed_def window_open_def initialApp_def
      defaultRowieSettings_def)

lemma in_game_NumPlayers:
  "in_game s \<Longrightarrow> step s = 1 \<Longrightarrow> in_game (handleNumPlayers n s)"
  by (auto simp: in_game_def well_formed_def window_open_def handleNumPlayers_def)

lemma in_game_PlayerName:
  "in_game s \<Longrightarrow> step s = 2 \<Longrightarrow> idx < length (playerNames s) \<Longrightarrow>
   in_game (handlePlayerName idx name s)"
  by (auto simp: in_game_def well_formed_def window_open_def handlePlayerName_def array_set_def)

lemma new_game:
  assumes "length (playerNames s) = numPlayers s" "handleNamesContinue s = Inr s'"
  shows "in_game s'" "hands s' = []" "chips s' = replicate (numPlayers s') (Num 0)"
proof -
  from assms(2) have s': "s' = s\<lparr>chips := replicate (numPlayers s) (Num 0),
                   rowie := replicate (numPlayers s) (Num 0),
                   rowieSettings := defaultRowieSettings,
                   hands := [], currentHandIndex := - 1, completedRowies := [],
                   handResults := replicate (numPlayers s) (Num 0),
                   showSummary := False, mercyApplied := False, step := 3\<rparr>"
    by (simp add: handleNamesContinue_def split: if_splits)
  from assms(1) show "in_game s'"
    unfolding s'
    by (simp add: in_game_def well_formed_def window_open_def defaultRowieSettings_def)
  show "hands s' = []" "chips s' = replicate (numPlayers s') (Num 0)"
    unfolding s' by simp_all
qed

lemma in_game_NamesContinue:
  assumes "in_game s" "handleNamesContinue s = Inr s'"
  shows "in_game s'"
proof -
  from assms(1) have "length (playerNames s) = numPlayers s"
    by (simp add: in_game_def well_formed_def)
  then show ?thesis using assms(2) by (rule new_game(1))
qed

lemma in_game_HandResult:
  assumes "in_game s" "idx < length (playerNames s)"
  shows "in_game (handleHandResult idx t s)"
proof -
  from assms have idx: "idx < length (handResults s)"
    by (simp add: in_game_def well_formed_def)
  then have "handleHandResult idx t s =
      s\<lparr>handResults := (spread (handResults s))[idx := entered_value t]\<rparr>"
    by (simp add: handleHandResult_def array_set_def)
  moreover have "in_game (s\<lparr>handResults := (spread (handResults s))[idx := entered_value t]\<rparr>)"
    using assms(1) by (simp add: in_game_def well_formed_def window_open_def)
  ultimately show ?thesis by simp
qed

lemma in_game_ToggleNegative:
  assumes "in_game s" "idx < length (playerNames s)"
  shows "in_game (toggleNegative idx s)"
proof -
  from assms have idx: "idx < length (handResults s)"
    by (simp add: in_game_def well_formed_def)
  then have "toggleNegative idx s =
      s\<lparr>handResults := (spread (handResults s))
           [idx := js_neg (element (spread (handResults s)) idx)]\<rparr>"
    by (simp add: toggleNegative_def array_set_def Let_def)
  moreover have "in_game (s\<lparr>handResults := (spread (handResults s))
           [idx := js_neg (element (spread (handResults s)) idx)]\<rparr>)"
    using assms(1) by (simp add: in_game_def well_formed_def window_open_def)
  ultimately show ?thesis by simp
qed

lemma in_game_SubmitHand:
  assumes g: "in_game s" and st: "step s = 3"
    and zero: "strict_equal (foldl (\<lambda>sum (result, idx). js_add sum result) (Num 0)
                      (entries (handResults s))) (Num 0)"
  shows "\<exists>s'. handleSubmitHand up now s = Inr s' \<and> in_game s'"
proof -
  from g have wf: "well_formed s" by (simp add: in_game_def)
  note eq = submit_accepted [OF well_formed_window [OF wf] zero, of up now]
  show ?thesis
    unfolding eq
    using g st
    by (simp add: in_game_def well_formed_def window_open_def add_results_def)
qed

lemma show_hand_in_game:
  assumes "in_game s" "0 \<le> i" "i < int (length (hands s))"
  shows "\<exists>s'. show_hand i s = Inr s' \<and> in_game s'"
proof -
  have eq: "show_hand i s =
      Inr (s\<lparr>currentHandIndex := i, handResults := playerResults (hands s ! nat i)\<rparr>)"
    using assms(2,3) by (simp add: show_hand_def hand_at_def)
  have "nat i < length (hands s)" using assms(2,3) by simp
  then have "hands s ! nat i \<in> set (hands s)" by (rule nth_mem)
  then have "length (playerResults (hands s ! nat i)) = numPlayers s"
    using assms(1) by (simp add: in_game_def well_formed_def list_all_iff)
  then have "in_game (s\<lparr>currentHandIndex := i, handResults := playerResults (hands s ! nat i)\<rparr>)"
    using assms by (simp add: in_game_def well_formed_def window_open_def)
  with eq show ?thesis by simp
qed

lemma in_game_NewRowie:
  assumes "in_game s" "step s = 3" "handleNewRowie s = Inr s'"
  shows "in_game s'"
proof -
  from assms(3) have s': "s' = s\<lparr>step := 4\<rparr>" and closed: "\<not> window_open s"
    by (simp_all add: handleNewRowie_def window_open_def split: if_splits)
  from assms(1,2) closed show ?thesis
    unfolding s' by (simp add: in_game_def well_formed_def window_open_def)
qed

lemma in_game_RowieSettings:
  "in_game s \<Longrightarrow> step s = 4 \<Longrightarrow> in_game (handleRowieSettings field v s)"
  by (cases field) (simp_all add: in_game_def well_formed_def window_open_def)

lemma in_game_RowieSettingsContinue:
  assumes "in_game s" "step s = 4" "handleRowieSettingsContinue start s = Inr s'"
  shows "in_game s'"
proof (cases start)
  case False
  with assms(3) have "s' = s"
    by (simp add: handleRowieSettingsContinue_def split: if_splits)
  with assms(1) show ?thesis by simp
next
  case True
  with assms(3) have s': "s' = s\<lparr>rowieSettings := (rowieSettings s)
                     \<lparr>startHand := length (hands s),
                      currentHand := numHands (rowieSettings s),
                      isComplete := False\<rparr>,
                   step := 3\<rparr>"
    by (simp add: handleRowieSettingsContinue_def split: if_splits)
  from assms(1) show ?thesis
    unfolding s' by (simp add: in_game_def well_formed_def window_open_def)
qed

lemma fire_in_game:
  assumes g: "in_game s" and off: "offered ev s"
  shows "(\<exists>s'. fire up ev s = Inr s' \<and> in_game s') \<or>
         (\<exists>title message. fire up ev s = Inl (Alert title message))"
proof (cases ev)
  case (NumPlayers n)
  with g off show ?thesis by (simp add: in_game_NumPlayers)
next
  case (PlayerName idx name)
  with g off show ?thesis by (simp add: in_game_PlayerName)
next
  case NamesContinue
  show ?thesis
  proof (cases "handleNamesContinue s")
    case (Inl e)
    then show ?thesis using NamesContinue
      by (auto simp: handleNamesContinue_def split: if_splits)
  next
    case (Inr s')
    with g NamesContinue show ?thesis by (simp add: in_game_NamesContinue)
  qed
next
  case (HandResult idx t)
  with g off show ?thesis by (simp add: in_game_HandResult)
next
  case (ToggleNegative idx)
  with g off show ?thesis by (simp add: in_game_ToggleNegative)
next
  case (SubmitHand now)
  show ?thesis
  proof (cases "strict_equal (foldl (\<lambda>sum (result, idx). js_add sum result) (Num 0)
                      (entries (handResults s))) (Num 0)")
    case True
    from off SubmitHand have "step s = 3" by (simp add: game_rows_def)
    from in_game_SubmitHand [OF g this True, of up now] SubmitHand show ?thesis by simp
  next
    case False
    with SubmitHand show ?thesis by (simp add: submit_rejected)
  qed
next
  case PreviousHand
  with g off have "0 \<le> currentHandIndex s - 1" "currentHandIndex s - 1 < int (length (hands s))"
    by (simp_all add: in_game_def)
  from show_hand_in_game [OF g this] PreviousHand off show ?thesis
    by (simp add: handlePreviousHand_def)
next
  case NextHand
  with g off have "0 \<le> currentHandIndex s + 1" "currentHandIndex s + 1 < int (length (hands s))"
    by (simp_all add: in_game_def)
  from show_hand_in_game [OF g this] NextHand off show ?thesis
    by (simp add: handleNextHand_def)
next
  case CurrentHand
  with g off have "0 \<le> int (length (hands s)) - 1" "int (length (hands s)) - 1 < int (length (hands s))"
    by simp_all
  from show_hand_in_game [OF g this] CurrentHand show ?thesis
    by (simp add: handleCurrentHand_def)
next
  case NewRowie
  show ?thesis
  proof (cases "handleNewRowie s")
    case (Inl e)
    then show ?thesis using NewRowie by (auto simp: handleNewRowie_def split: if_splits)
  next
    case (Inr s')
    with g off NewRowie show ?thesis by (simp add: in_game_NewRowie game_rows_def)
  qed
next
  case (RowieSettings field v)
  with g off show ?thesis by (simp add: in_game_RowieSettings settings_form_def)
next
  case (RowieSettingsContinue start)
  show ?thesis
  proof (cases "handleRowieSettingsContinue start s")
    case (Inl e)
    then show ?thesis using RowieSettingsContinue
      by (auto simp: handleRowieSettingsContinue_def split: if_splits)
  next
    case (Inr s')
    with g off RowieSettingsContinue show ?thesis
      by (simp add: in_game_RowieSettingsContinue settings_form_def)
  qed
qed

lemma run_in_game: "in_game s \<Longrightarrow> \<exists>s'. run up evs s = Inr s' \<and> in_game s'"
proof (induction evs arbitrary: s)
  case Nil then show ?case by simp
next
  case (Cons ev evs)
  show ?case
  proof (cases "offered ev s")
    case False
    with Cons show ?thesis by simp
  next
    case True
    from fire_in_game [OF Cons.prems True, of up] show ?thesis
    proof (elim disjE exE conjE)
      fix s' assume "fire up ev s = Inr s'" "in_game s'"
      with True Cons.IH [of s'] show ?thesis by simp
    next
      fix title message assume "fire up ev s = Inl (Alert title message)"
      with True Cons.IH [OF Cons.prems] show ?thesis by simp
    qed
  qed
qed

subsection \<open>The totals of a game in progress are those of its history\<close>

lemma tallied_same:
  "tallied s \<Longrightarrow> chips s' = chips s \<Longrightarrow> hands s' = hands s \<Longrightarrow>
   numPlayers s' = numPlayers s \<Longrightarrow> tallied s'"
  by (simp add: tallied_def)

lemma tallied_new:
  "hands s = [] \<Longrightarrow> chips s = replicate (numPlayers s) (Num 0) \<Longrightarrow> tallied s"
  by (simp add: tallied_def replay_Nil number_def)

lemma replay_snoc:
  "length d = n \<Longrightarrow> replay n (ds @ [d]) = map (\<lambda>(x, a). x + a) (zip (replay n ds) d)"
  by (auto simp: nth_replay intro!: nth_equalityI)

lemma replay_bound:
  assumes "exact_range n ds" "p < n"
  shows "\<bar>replay n ds ! p\<bar> \<le> 2 ^ 53"
  using exact_range_nth [OF assms, of "length ds"] assms(2) by (simp add: nth_replay)

lemma tallied_submit:
  assumes wf: "well_formed s" and t: "tallied s"
  shows "tallied (s\<lparr>hands := hands s @ [\<lparr>playerResults = spread (handResults s), date = now\<rparr>],
            chips := add_results (chips s) (handResults s)\<rparr>)"
  unfolding tallied_def
proof (intro allI impI, elim conjE)
  let ?s' = "s\<lparr>hands := hands s @ [\<lparr>playerResults = spread (handResults s), date = now\<rparr>],
            chips := add_results (chips s) (handResults s)\<rparr>"
  let ?n = "numPlayers s"
  fix ds' assume r: "recorded (hands ?s') ds'" and e: "exact_range (numPlayers ?s') ds'"
  from r obtain ds d where ds': "ds' = ds @ [d]" and rs: "recorded (hands s) ds"
    and sp: "spread (handResults s) = map number d"
    by (auto simp: recorded_snoc)
  from sp have hr: "handResults s = map number d" by (rule spread_eq_number)
  from wf hr have len: "length d = ?n" by (auto simp: well_formed_def)
  from e have e': "exact_range ?n (ds @ [d])" by (simp add: ds')
  then have "exact_range ?n ds" by (rule exact_range_butlast)
  with t rs have c: "chips s = map number (replay ?n ds)" by (simp add: tallied_def)
  have b: "\<forall>i < length (replay ?n ds). \<bar>replay ?n ds ! i + d ! i\<bar> \<le> 2 ^ 53"
  proof (intro allI impI)
    fix i assume "i < length (replay ?n ds)"
    then have i: "i < ?n" by simp
    have "replay ?n ds ! i + d ! i = replay ?n (ds @ [d]) ! i"
      using i by (simp add: nth_replay)
    with replay_bound [OF e' i] show "\<bar>replay ?n ds ! i + d ! i\<bar> \<le> 2 ^ 53" by simp
  qed
  have "add_results (chips s) (handResults s) =
        map number (map (\<lambda>(x, r). x + r) (zip (replay ?n ds) d))"
    unfolding c hr using len b by (intro add_results_number) simp_all
  also have "\<dots> = map number (replay ?n (ds @ [d]))"
    using len by (simp add: replay_snoc)
  finally show "chips ?s' = map number (replay (numPlayers ?s') ds')"
    by (simp add: ds')
qed

lemma fire_tallied:
  assumes g: "in_game s" and t: "tallied s" and off: "offered ev s"
    and f: "fire up ev s = Inr s'"
  shows "tallied s'"
proof (cases ev)
  case (NumPlayers n)
  from g off NumPlayers have "hands s = []" by (simp add: in_game_def)
  with f NumPlayers show ?thesis
    by (auto intro!: tallied_new simp: handleNumPlayers_def)
next
  case (PlayerName idx name)
  with f t show ?thesis
    by (auto intro: tallied_same simp: handlePlayerName_def)
next
  case NamesContinue
  from g have "length (playerNames s) = numPlayers s"
    by (simp add: in_game_def well_formed_def)
  from new_game(2,3) [OF this] f NamesContinue show ?thesis
    by (auto intro!: tallied_new)
next
  case (HandResult idx x)
  with f t show ?thesis
    by (auto intro: tallied_same simp: handleHandResult_def Let_def)
next
  case (ToggleNegative idx)
  with f t show ?thesis
    by (auto intro: tallied_same simp: toggleNegative_def Let_def)
next
  case (SubmitHand now)
  from g have wf: "well_formed s" by (simp add: in_game_def)
  have zero: "strict_equal (foldl (\<lambda>sum (result, idx). js_add sum result) (Num 0)
                      (entries (handResults s))) (Num 0)"
    using f SubmitHand by (auto simp: handleSubmitHand_def Let_def split: if_splits)
  note eq = submit_accepted [OF well_formed_window [OF wf] zero, of up now]
  from f SubmitHand have s': "handleSubmitHand up now s = Inr s'" by simp
  have "chips s' = add_results (chips s) (handResults s)"
    "hands s' = hands s @ [\<lparr>playerResults = spread (handResults s), date = now\<rparr>]"
    "numPlayers s' = numPlayers s"
    using s' unfolding eq by auto
  with tallied_submit [OF wf t, of now] show ?thesis
    by (simp add: tallied_def)
next
  case PreviousHand
  with f t show ?thesis
    by (auto intro: tallied_same
        simp: handlePreviousHand_def show_hand_def split: if_splits sum.splits)
next
  case NextHand
  with f t show ?thesis
    by (auto intro: tallied_same
        simp: handleNextHand_def show_hand_def split: if_splits sum.splits)
next
  case CurrentHand
  with f t show ?thesis
    by (auto intro: tallied_same
        simp: handleCurrentHand_def show_hand_def split: if_splits sum.splits)
next
  case NewRowie
  with f t show ?thesis
    by (auto intro: tallied_same simp: handleNewRowie_def split: if_splits)
next
  case (RowieSettings field v)
  with f t show ?thesis
    by (cases field) (auto intro: tallied_same)
next
  case (RowieSettingsContinue start)
  with f t show ?thesis
    by (auto intro: tallied_same simp: handleRowieSettingsContinue_def split: if_splits)
qed

lemma run_tallied:
  "in_game s \<Longrightarrow> tallied s \<Longrightarrow> \<exists>s'. run up evs s = Inr s' \<and> in_game s' \<and> tallied s'"
proof (induction evs arbitrary: s)
  case Nil then show ?case by simp
next
  case (Cons ev evs)
  show ?case
  proof (cases "offered ev s")
    case False
    with Cons show ?thesis by simp
  next
    case True
    from fire_in_game [OF Cons.prems(1) True, of up] show ?thesis
    proof (elim disjE exE conjE)
      fix s' assume s': "fire up ev s = Inr s'" "in_game s'"
      from fire_tallied [OF Cons.prems True s'(1)] have "tallied s'" .
      with True s' Cons.IH [of s'] show ?thesis by simp
    next
      fix title message assume "fire up ev s = Inl (Alert title message)"
      with True Cons.IH [OF Cons.prems] show ?thesis by simp
    qed
  qed
qed

subsection \<open>The running total shown on the game screen\<close>

lemma recorded_nth:
  "recorded hs ds \<Longrightarrow> i < length hs \<Longrightarrow> playerResults (hs ! i) = map number (ds ! i)"
  unfolding recorded_def
  by (metis length_map nth_map)

lemma recorded_same_length: "recorded hs ds \<Longrightarrow> length ds = length hs"
  unfolding recorded_def by (metis length_map)

lemma running_loop_number:
  assumes "recorded hs ds" "list_all (\<lambda>d. idx < length d) ds"
  shows "i + todo \<le> length hs \<Longrightarrow>
     \<forall>k \<le> todo. \<bar>acc + sum_list (map (\<lambda>d. d ! idx) (take k (drop i ds)))\<bar> \<le> 2 ^ 53 \<Longrightarrow>
     running_loop hs idx i todo (number acc) =
       Inr (number (acc + sum_list (map (\<lambda>d. d ! idx) (take todo (drop i ds)))))"
proof (induction todo arbitrary: i acc)
  case 0 then show ?case by simp
next
  case (Suc todo)
  then have i: "i < length hs" by simp
  with assms(1) have ids: "i < length ds" by (simp add: recorded_same_length)
  then have "ds ! i \<in> set ds" by (rule nth_mem)
  with assms(2) have idx: "idx < length (ds ! i)" by (simp add: list_all_iff)
  have d: "drop i ds = ds ! i # drop (Suc i) ds"
    using ids by (simp add: Cons_nth_drop_Suc)
  have el: "element (playerResults (hs ! i)) idx = number (ds ! i ! idx)"
    using recorded_nth [OF assms(1) i] idx by (simp add: element_number)
  have step: "\<bar>acc + ds ! i ! idx + sum_list (map (\<lambda>d. d ! idx) (take k (drop (Suc i) ds)))\<bar> \<le> 2 ^ 53"
    if "k \<le> todo" for k
  proof -
    from that have "Suc k \<le> Suc todo" by simp
    with Suc.prems(2)
    have "\<bar>acc + sum_list (map (\<lambda>d. d ! idx) (take (Suc k) (drop i ds)))\<bar> \<le> 2 ^ 53" by blast
    then show ?thesis by (simp add: d add.assoc)
  qed
  have 1: "\<bar>acc + ds ! i ! idx\<bar> \<le> 2 ^ 53" using step [of 0] by simp
  have 2: "\<forall>k \<le> todo. \<bar>acc + ds ! i ! idx +
      sum_list (map (\<lambda>d. d ! idx) (take k (drop (Suc i) ds)))\<bar> \<le> 2 ^ 53"
    using step by blast
  have "running_loop hs idx i (Suc todo) (number acc) =
        running_loop hs idx (Suc i) todo (number (acc + ds ! i ! idx))"
    using i by (simp add: el js_add_number [OF 1])
  also have "\<dots> = Inr (number (acc + ds ! i ! idx +
      sum_list (map (\<lambda>d. d ! idx) (take todo (drop (Suc i) ds)))))"
    using Suc.prems(1) 2 by (intro Suc.IH) simp_all
  finally show ?case by (simp add: d add.assoc)
qed

lemma runningTotal_latest:
  assumes g: "in_game s" and r: "recorded (hands s) ds"
    and e: "exact_range (numPlayers s) ds"
    and latest: "currentHandIndex s = int (length (hands s)) - 1"
    and idx: "idx < numPlayers s"
  shows "runningTotal s idx = Inr (number (replay (numPlayers s) ds ! idx))"
proof -
  from g have "list_all (\<lambda>h. length (playerResults h) = numPlayers s) (hands s)"
    by (simp add: in_game_def well_formed_def)
  with r have "list_all (\<lambda>d. length d = numPlayers s) ds" by (rule recorded_length)
  then have all: "list_all (\<lambda>d. idx < length d) ds"
    using idx by (simp add: list_all_iff)
  have len: "length ds = length (hands s)" using r by (rule recorded_same_length)
  show ?thesis
  proof (cases "hands s = []")
    case True
    with latest len idx show ?thesis
      by (simp add: runningTotal_def nth_replay number_def)
  next
    case False
    have b: "\<forall>k \<le> length (hands s).
        \<bar>0 + sum_list (map (\<lambda>d. d ! idx) (take k (drop 0 ds)))\<bar> \<le> 2 ^ 53"
      using exact_range_nth [OF e idx] len by simp
    have "runningTotal s idx = running_loop (hands s) idx 0 (length (hands s)) (number 0)"
      using False latest by (simp add: runningTotal_def number_def)
    also have "\<dots> = Inr (number (0 + sum_list (map (\<lambda>d. d ! idx)
        (take (length (hands s)) (drop 0 ds)))))"
      using r all _ b by (rule running_loop_number) simp
    finally show ?thesis using idx len by (simp add: nth_replay)
  qed
qed

lemma run_alert:
  "fire up ev s = Inl (Alert title message) \<Longrightarrow> run up (ev # evs) s = run up evs s"
  by simp

lemma submit_records:
  assumes "handleSubmitHand up now s = Inr s'"
  shows "completedRowies s' = completedRowies s \<or>
     (\<exists>r. completedRowies s' = completedRowies s @ [r] \<and>
          complete_rowie up s \<lparr>playerResults = spread (handResults s), date = now\<rparr> = Inr r)"
proof -
  let ?h = "\<lparr>playerResults = spread (handResults s), date = now\<rparr>"
  let ?s1 = "s\<lparr>hands := hands s @ [?h],
               currentHandIndex := int (length (hands s @ [?h])) - 1,
               chips := add_results (chips s) (handResults s)\<rparr>"
  from assms obtain s2 where u: "update_rowie up s ?h ?s1 = Inr s2"
    and s': "s' = s2\<lparr>handResults := replicate (numPlayers s) (Num 0)\<rparr>"
    by (auto simp: handleSubmitHand_def Let_def split: if_splits sum.splits)
  have c: "completedRowies s' = completedRowies s2" by (simp add: s')
  show ?thesis
  proof (cases "currentHand (rowieSettings s) = 1")
    case True
    with u obtain r where r: "complete_rowie up s ?h = Inr r"
      and s2: "s2 = ?s1\<lparr>rowie := add_results (rowie s) (handResults s),
                        completedRowies := completedRowies s @ [r],
                        rowieSettings := (rowieSettings s)\<lparr>currentHand := 0, isComplete := True\<rparr>\<rparr>"
      by (auto simp: update_rowie_def Let_def split: sum.splits)
    from s2 have "completedRowies s2 = completedRowies s @ [r]" by simp
    with r c show ?thesis by simp
  next
    case False
    with u have "completedRowies s2 = completedRowies ?s1"
      by (auto simp: update_rowie_def Let_def split: if_splits)
    with c show ?thesis by simp
  qed
qed

text \<open>
  Claim C3, amended. A hand of integers whose running sum stays within \<open>2\<^sup>5\<^sup>3\<close> and
  whose entries do not sum to zero is rejected: \<open>handleSubmitHand\<close> shows the alert and
  returns before any state setter is called, so a run goes on from the same state: totals,
  hand list, window settings and window points are unchanged. The example after the
  theorem rejects the hand 10, -5, -4.
\<close>

theorem submit_rejects_nonzero_sum:
  assumes "handResults s = map number d" "exact_sum d" "sum_list d \<noteq> 0"
  shows "handleSubmitHand up now s = Inl (Alert ''Error'' ''Hand results must sum to zero.'') \<and>
         run up (SubmitHand now # evs) s = run up evs s"
proof -
  have "foldl (\<lambda>sum (result, idx). js_add sum result) (Num 0) (entries (handResults s)) =
        number (sum_list d)"
    unfolding assms(1) using assms(2) by (rule hand_total)
  then have "\<not> strict_equal (foldl (\<lambda>sum (result, idx). js_add sum result) (Num 0)
                      (entries (handResults s))) (Num 0)"
    using assms(3) by simp
  then have "handleSubmitHand up now s =
      Inl (Alert ''Error'' ''Hand results must sum to zero.'')"
    by (rule submit_rejected)
  then show ?thesis by simp
qed

theorem submit_rejects_nonzero_sum_witness:
  "handResults (initialApp\<lparr>step := 3, numPlayers := 3,
       playerNames := [utf16 ''Ann'', utf16 ''Bob'', utf16 ''Cy''],
       chips := replicate 3 (Num 0), rowie := replicate 3 (Num 0),
       handResults := map number [10, - 5, - 4]\<rparr>) = map number [10, - 5, - 4]
   \<and> exact_sum [10, - 5, - 4] \<and> sum_list [10, - 5, - 4 :: int] \<noteq> 0
   \<and> run ascii_upper [SubmitHand (utf16 ''now'')]
       (initialApp\<lparr>step := 3, numPlayers := 3,
          playerNames := [utf16 ''Ann'', utf16 ''Bob'', utf16 ''Cy''],
          chips := replicate 3 (Num 0), rowie := replicate 3 (Num 0),
          handResults := map number [10, - 5, - 4]\<rparr>) =
     Inr (initialApp\<lparr>step := 3, numPlayers := 3,
          playerNames := [utf16 ''Ann'', utf16 ''Bob'', utf16 ''Cy''],
          chips := replicate 3 (Num 0), rowie := replicate 3 (Num 0),
          handResults := map number [10, - 5, - 4]\<rparr>)"
proof -
  let ?s = "initialApp\<lparr>step := 3, numPlayers := 3,
       playerNames := [utf16 ''Ann'', utf16 ''Bob'', utf16 ''Cy''],
       chips := replicate 3 (Num 0), rowie := replicate 3 (Num 0),
       handResults := map number [10, - 5, - 4]\<rparr>"
  have h: "handResults ?s = map number [10, - 5, - 4]" by simp
  have e: "exact_sum [10, - 5, - 4]" by code_simp
  have n: "sum_list [10, - 5, - 4 :: int] \<noteq> 0" by simp
  have "run ascii_upper (SubmitHand (utf16 ''now'') # []) ?s = run ascii_upper [] ?s"
    using submit_rejects_nonzero_sum [OF h e n] by blast
  with h e n show ?thesis by simp
qed

text \<open>
  Claim C7, amended. Take a game in progress whose chip totals are those of its hand
  history (a new game is one). Whatever the user then does on the set-up and game screens,
  the run never fails, and whenever the history consists of integer vectors and no total
  ever went beyond \<open>2\<^sup>5\<^sup>3\<close>, the chip totals kept by \<open>handleSubmitHand\<close> are the exact sums
  of the players' deltas over the whole hand history (\<open>replay\<close>); while the latest hand is
  the one viewed, the running total that \<open>renderGamePlay\<close> recomputes from the history
  is that same total.
\<close>

theorem running_totals_replay:
  assumes "in_game s" "tallied s"
  shows "\<exists>s'. run up evs s = Inr s' \<and>
     (\<forall>ds. recorded (hands s') ds \<and> exact_range (numPlayers s') ds \<longrightarrow>
        chips s' = map number (replay (numPlayers s') ds) \<and>
        (currentHandIndex s' = int (length (hands s')) - 1 \<longrightarrow>
           (\<forall>idx < numPlayers s'.
              runningTotal s' idx = Inr (number (replay (numPlayers s') ds ! idx)))))"
proof -
  from run_tallied [OF assms, of up evs]
  obtain s' where s': "run up evs s = Inr s'" "in_game s'" "tallied s'" by blast
  have "chips s' = map number (replay (numPlayers s') ds) \<and>
        (currentHandIndex s' = int (length (hands s')) - 1 \<longrightarrow>
           (\<forall>idx < numPlayers s'.
              runningTotal s' idx = Inr (number (replay (numPlayers s') ds ! idx))))"
    if "recorded (hands s') ds \<and> exact_range (numPlayers s') ds" for ds
    using that s'(3) runningTotal_latest [OF s'(2), of ds] by (simp add: tallied_def)
  with s'(1) show ?thesis by blast
qed

theorem running_totals_replay_witness:
  "in_game initialApp \<and> tallied initialApp
   \<and> run ascii_upper
       [NumPlayers 3, PlayerName 0 (utf16 ''Ann''), PlayerName 1 (utf16 ''Bob''),
        PlayerName 2 (utf16 ''Cy''), NamesContinue,
        HandResult 0 (Number_text 50), HandResult 1 (Number_text 20), ToggleNegative 1,
        HandResult 2 (Number_text (- 30)), SubmitHand (utf16 ''t1''),
        HandResult 0 (Number_text 5), HandResult 1 (Number_text (- 4)), SubmitHand (utf16 ''t2''),
        HandResult 2 (Number_text (- 1)), SubmitHand (utf16 ''t3'')] initialApp =
     Inr (initialApp\<lparr>step := 3, numPlayers := 3,
          playerNames := [utf16 ''Ann'', utf16 ''Bob'', utf16 ''Cy''],
          chips := map number [55, - 24, - 31], rowie := replicate 3 (Num 0),
          hands := [\<lparr>playerResults = map number [50, - 20, - 30], date = utf16 ''t1''\<rparr>,
                    \<lparr>playerResults = map number [5, - 4, - 1], date = utf16 ''t3''\<rparr>],
          currentHandIndex := 1, handResults := replicate 3 (Num 0)\<rparr>)
   \<and> recorded [\<lparr>playerResults = map number [50, - 20, - 30], date = utf16 ''t1''\<rparr>,
               \<lparr>playerResults = map number [5, - 4, - 1], date = utf16 ''t3''\<rparr>]
        [[50, - 20, - 30], [5, - 4, - 1]]
   \<and> exact_range 3 [[50, - 20, - 30], [5, - 4, - 1]]
   \<and> replay 3 [[50, - 20, - 30], [5, - 4, - 1]] = [55, - 24, - 31]
   \<and> runningTotal (initialApp\<lparr>step := 3, numPlayers := 3,
          playerNames := [utf16 ''Ann'', utf16 ''Bob'', utf16 ''Cy''],
          chips := map number [55, - 24, - 31], rowie := replicate 3 (Num 0),
          hands := [\<lparr>playerResults = map number [50, - 20, - 30], date = utf16 ''t1''\<rparr>,
                    \<lparr>playerResults = map number [5, - 4, - 1], date = utf16 ''t3''\<rparr>],
          currentHandIndex := 1, handResults := replicate 3 (Num 0)\<rparr>) 1 = Inr (number (- 24))"
proof -
  let ?evs = "[NumPlayers 3, PlayerName 0 (utf16 ''Ann''), PlayerName 1 (utf16 ''Bob''),
        PlayerName 2 (utf16 ''Cy''), NamesContinue,
        HandResult 0 (Number_text 50), HandResult 1 (Number_text 20), ToggleNegative 1,
        HandResult 2 (Number_text (- 30)), SubmitHand (utf16 ''t1''),
        HandResult 0 (Number_text 5), HandResult 1 (Number_text (- 4)), SubmitHand (utf16 ''t2''),
        HandResult 2 (Number_text (- 1)), SubmitHand (utf16 ''t3'')]"
  let ?ds = "[[50, - 20, - 30], [5, - 4, - 1 :: int]]"
  let ?s = "initialApp\<lparr>step := 3, numPlayers := 3,
          playerNames := [utf16 ''Ann'', utf16 ''Bob'', utf16 ''Cy''],
          chips := map number [55, - 24, - 31], rowie := replicate 3 (Num 0),
          hands := [\<lparr>playerResults = map number [50, - 20, - 30], date = utf16 ''t1''\<rparr>,
                    \<lparr>playerResults = map number [5, - 4, - 1], date = utf16 ''t3''\<rparr>],
          currentHandIndex := 1, handResults := replicate 3 (Num 0)\<rparr>"
  have g: "in_game initialApp" by (rule in_game_initial)
  have t: "tallied initialApp"
    by (rule tallied_new) (simp_all add: initialApp_def)
  have r: "run ascii_upper ?evs initialApp = Inr ?s" by code_simp
  have rec: "recorded (hands ?s) ?ds" by (simp add: recorded_def)
  have ex: "exact_range (numPlayers ?s) ?ds" by code_simp
  have rp: "replay 3 ?ds = [55, - 24, - 31]" by code_simp
  from running_totals_replay [OF g t, of ascii_upper ?evs] obtain s' where
    s': "run ascii_upper ?evs initialApp = Inr s'"
    "\<forall>ds. recorded (hands s') ds \<and> exact_range (numPlayers s') ds \<longrightarrow>
        chips s' = map number (replay (numPlayers s') ds) \<and>
        (currentHandIndex s' = int (length (hands s')) - 1 \<longrightarrow>
           (\<forall>idx < numPlayers s'.
              runningTotal s' idx = Inr (number (replay (numPlayers s') ds ! idx))))"
    by blast
  from s'(1) r have eq: "s' = ?s" by simp
  from s'(2) have "recorded (hands ?s) ?ds \<and> exact_range (numPlayers ?s) ?ds \<longrightarrow>
        chips ?s = map number (replay (numPlayers ?s) ?ds) \<and>
        (currentHandIndex ?s = int (length (hands ?s)) - 1 \<longrightarrow>
           (\<forall>idx < numPlayers ?s.
              runningTotal ?s idx = Inr (number (replay (numPlayers ?s) ?ds ! idx))))"
    unfolding eq by (rule spec)
  with rec ex have shown: "currentHandIndex ?s = int (length (hands ?s)) - 1 \<longrightarrow>
           (\<forall>idx < numPlayers ?s.
              runningTotal ?s idx = Inr (number (replay (numPlayers ?s) ?ds ! idx)))"
    by blast
  have latest: "currentHandIndex ?s = int (length (hands ?s)) - 1" by simp
  from shown latest have "\<forall>idx < numPlayers ?s.
      runningTotal ?s idx = Inr (number (replay (numPlayers ?s) ?ds ! idx))"
    by (rule mp)
  then have "1 < numPlayers ?s \<longrightarrow>
      runningTotal ?s 1 = Inr (number (replay (numPlayers ?s) ?ds ! 1))"
    by (rule spec)
  then have "runningTotal ?s 1 = Inr (number (replay 3 ?ds ! 1))" by simp
  then have "runningTotal ?s 1 = Inr (number (- 24))" by (simp only: rp) simp
  with g t r rec ex rp show ?thesis by simp
qed

text \<open>
  Claim C8. There is one window record, open while \<open>currentHand\<close> is positive.
  \<open>handleNewRowie\<close> rejects with an alert while a window is open, and
  \<open>handleRowieSettingsContinue\<close> rejects with an alert when the number of hands or the pot
  amount is not positive; neither rejection changes the state. In every state reached from
  the initial one, the settings form, whose confirmation opens a window, is offered only
  while no window is open.
\<close>

theorem one_window_at_a_time:
  "(window_open s \<longrightarrow>
      handleNewRowie s =
        Inl (Alert ''Please complete the current Rowie before starting a new one.'' []) \<and>
      run up (NewRowie # evs) s = run up evs s)
   \<and> (numHands (rowieSettings s) \<le> 0 \<or> potAmount (rowieSettings s) \<le> 0 \<longrightarrow>
      handleRowieSettingsContinue start s = Inl (Alert ''Please fill in all Rowie settings.'' []) \<and>
      run up (RowieSettingsContinue start # evs) s = run up evs s)
   \<and> (run up evs' initialApp = Inr s' \<and> offered (RowieSettingsContinue start) s' \<longrightarrow>
      \<not> window_open s')"
proof (intro conjI impI)
  assume "window_open s"
  then show "handleNewRowie s =
      Inl (Alert ''Please complete the current Rowie before starting a new one.'' [])"
    by (simp add: handleNewRowie_def window_open_def)
  then show "run up (NewRowie # evs) s = run up evs s" by simp
next
  assume "numHands (rowieSettings s) \<le> 0 \<or> potAmount (rowieSettings s) \<le> 0"
  then show "handleRowieSettingsContinue start s =
      Inl (Alert ''Please fill in all Rowie settings.'' [])"
    by (auto simp: handleRowieSettingsContinue_def)
  then show "run up (RowieSettingsContinue start # evs) s = run up evs s" by simp
next
  assume a: "run up evs' initialApp = Inr s' \<and> offered (RowieSettingsContinue start) s'"
  from run_in_game [OF in_game_initial, of up evs'] a have "in_game s'" by auto
  with a show "\<not> window_open s'" by (simp add: in_game_def settings_form_def)
qed

theorem one_window_at_a_time_witness:
  "run ascii_upper [NumPlayers 2, PlayerName 0 (utf16 ''A''), PlayerName 1 (utf16 ''B''),
        NamesContinue, NewRowie,
        RowieSettings Field_numHands 2, RowieSettingsContinue True] initialApp =
     Inr (initialApp\<lparr>step := 3, playerNames := [utf16 ''A'', utf16 ''B''],
          rowieSettings := \<lparr>startHand = 0, numHands = 2, potAmount = 5, currentHand = 2,
                            isComplete = False\<rparr>\<rparr>)
   \<and> window_open (initialApp\<lparr>step := 3, playerNames := [utf16 ''A'', utf16 ''B''],
          rowieSettings := \<lparr>startHand = 0, numHands = 2, potAmount = 5, currentHand = 2,
                            isComplete = False\<rparr>\<rparr>)
   \<and> run ascii_upper [NewRowie]
        (initialApp\<lparr>step := 3, playerNames := [utf16 ''A'', utf16 ''B''],
          rowieSettings := \<lparr>startHand = 0, numHands = 2, potAmount = 5, currentHand = 2,
                            isComplete = False\<rparr>\<rparr>) =
       Inr (initialApp\<lparr>step := 3, playerNames := [utf16 ''A'', utf16 ''B''],
          rowieSettings := \<lparr>startHand = 0, numHands = 2, potAmount = 5, currentHand = 2,
                            isComplete = False\<rparr>\<rparr>)
   \<and> numHands (rowieSettings ((initialApp\<lparr>step := 4\<rparr>))) \<le> 0
   \<and> run ascii_upper [RowieSettingsContinue True] (initialApp\<lparr>step := 4\<rparr>) =
       Inr (initialApp\<lparr>step := 4\<rparr>)
   \<and> run ascii_upper [NumPlayers 2, PlayerName 0 (utf16 ''A''), PlayerName 1 (utf16 ''B''),
         NamesContinue, NewRowie] initialApp =
       Inr (initialApp\<lparr>step := 4, playerNames := [utf16 ''A'', utf16 ''B'']\<rparr>)
   \<and> offered (RowieSettingsContinue True)
       (initialApp\<lparr>step := 4, playerNames := [utf16 ''A'', utf16 ''B'']\<rparr>)
   \<and> \<not> window_open (initialApp\<lparr>step := 4, playerNames := [utf16 ''A'', utf16 ''B'']\<rparr>)"
proof -
  let ?open = "initialApp\<lparr>step := 3, playerNames := [utf16 ''A'', utf16 ''B''],
          rowieSettings := \<lparr>startHand = 0, numHands = 2, potAmount = 5, currentHand = 2,
                            isComplete = False\<rparr>\<rparr>"
  let ?form = "initialApp\<lparr>step := 4, playerNames := [utf16 ''A'', utf16 ''B'']\<rparr>"
  have 1: "run ascii_upper [NumPlayers 2, PlayerName 0 (utf16 ''A''), PlayerName 1 (utf16 ''B''),
        NamesContinue, NewRowie,
        RowieSettings Field_numHands 2, RowieSettingsContinue True] initialApp = Inr ?open"
    by code_simp
  have 2: "window_open ?open" by (simp add: window_open_def)
  have 3: "run ascii_upper (NewRowie # []) ?open = run ascii_upper [] ?open"
    using one_window_at_a_time [of ?open ascii_upper "[]"] 2 by blast
  have 4: "numHands (rowieSettings (initialApp\<lparr>step := 4\<rparr>)) \<le> 0"
    by (simp add: initialApp_def defaultRowieSettings_def)
  have 5: "run ascii_upper (RowieSettingsContinue True # []) (initialApp\<lparr>step := 4\<rparr>) =
           run ascii_upper [] (initialApp\<lparr>step := 4\<rparr>)"
    using one_window_at_a_time [of "initialApp\<lparr>step := 4\<rparr>" ascii_upper "[]" True] 4 by blast
  have 6: "run ascii_upper [NumPlayers 2, PlayerName 0 (utf16 ''A''), PlayerName 1 (utf16 ''B''),
         NamesContinue, NewRowie] initialApp = Inr ?form" by code_simp
  have 7: "offered (RowieSettingsContinue True) ?form"
    by (simp add: settings_form_def initialApp_def)
  have 8: "\<not> window_open ?form"
    using one_window_at_a_time [of _ ascii_upper _ True
        "[NumPlayers 2, PlayerName 0 (utf16 ''A''), PlayerName 1 (utf16 ''B''), NamesContinue, NewRowie]"
        ?form]
      6 7 by blast
  from 1 2 3 4 5 6 7 8 show ?thesis by simp
qed

lemma window_totals:
  assumes hr: "handResults s = map number d" and len: "length d = numPlayers s"
    and win: "recorded (drop (startHand (rowieSettings s)) (hands s)) ws"
    and lens: "list_all (\<lambda>w. length w = numPlayers s) ws"
    and ex: "exact_range (numPlayers s) (ws @ [d])"
  shows "sum_results (replicate (numPlayers s) (Num 0))
           (drop (startHand (rowieSettings s)) (hands s) @
              [\<lparr>playerResults = spread (handResults s), date = now\<rparr>]) =
         map number (replay (numPlayers s) (ws @ [d]))"
proof -
  have "recorded (drop (startHand (rowieSettings s)) (hands s) @
              [\<lparr>playerResults = spread (handResults s), date = now\<rparr>]) (ws @ [d])"
    using win by (simp add: recorded_snoc hr)
  moreover have "list_all (\<lambda>w. length w = numPlayers s) (ws @ [d])"
    using lens len by simp
  ultimately show ?thesis using ex by (rule sum_results_replay)
qed

lemma recorded_lengths:
  assumes "recorded hs ws" "list_all (\<lambda>w. length w = n) ws"
  shows "list_all (\<lambda>h. length (playerResults h) \<le> n) hs"
  unfolding list_all_iff
proof
  fix h assume "h \<in> set hs"
  then obtain i where i: "i < length hs" "hs ! i = h" by (auto simp: in_set_conv_nth)
  from assms(1) i(1) have p: "playerResults (hs ! i) = map number (ws ! i)"
    by (rule recorded_nth)
  from assms(1) i(1) have "i < length ws" by (simp add: recorded_same_length)
  then have "ws ! i \<in> set ws" by (rule nth_mem)
  with assms(2) have "length (ws ! i) = n" by (simp add: list_all_iff)
  with p i(2) show "length (playerResults h) \<le> n" by auto
qed

text \<open>
  Claim C9, amended. In a state with one name for each player, a hand of integers, one
  for each player, is submitted while the window has one hand left; the hand sums to zero
  with its running sum within \<open>2\<^sup>5\<^sup>3\<close>, and the hands of the window are integer vectors
  with one entry for each player, no window total ever beyond \<open>2\<^sup>5\<^sup>3\<close>. Then the hand is
  accepted, the window closes (\<open>currentHand\<close> becomes 0, \<open>isComplete\<close> is set) and one
  record is appended to \<open>completedRowies\<close>. Its winners are the upper-cased first
  characters of the names of all players whose window total no other player's total
  exceeds, in player order, whatever the sign of the totals.
\<close>

theorem window_closes_with_all_winners:
  assumes "currentHand (rowieSettings s) = 1"
    and "length (playerNames s) = numPlayers s"
    and "handResults s = map number d" "length d = numPlayers s"
    and "exact_sum d" "sum_list d = 0"
    and "recorded (drop (startHand (rowieSettings s)) (hands s)) ws"
    and "list_all (\<lambda>w. length w = numPlayers s) ws"
    and "exact_range (numPlayers s) (ws @ [d])"
  shows "\<exists>s' r. handleSubmitHand up now s = Inr s' \<and>
     \<not> window_open s' \<and> isComplete (rowieSettings s') \<and>
     completedRowies s' = completedRowies s @ [r] \<and>
     winners r =
       map (\<lambda>i. up (charAt (playerNames s ! i) 0))
         (filter (\<lambda>i. \<forall>j < numPlayers s.
                     replay (numPlayers s) (ws @ [d]) ! j \<le> replay (numPlayers s) (ws @ [d]) ! i)
            [0..<numPlayers s])"
proof -
  have zero: "strict_equal (foldl (\<lambda>sum (result, idx). js_add sum result) (Num 0)
                      (entries (handResults s))) (Num 0)"
    unfolding assms(3) using assms(5,6) by (simp add: hand_total)
  have window: "list_all (\<lambda>h. length (playerResults h) \<le> numPlayers s)
                   (drop (startHand (rowieSettings s)) (hands s))"
    using assms(7,8) by (rule recorded_lengths)
  have new: "length (handResults s) \<le> numPlayers s"
    using assms(3,4) by simp
  note eq = submit_accepted [OF assms(2) window new zero, of up now]
  note tot = window_totals [OF assms(3,4,7,8,9), of now]
  show ?thesis
    unfolding eq using assms(1)
    by (simp add: window_open_def tot first_place_number)
qed

theorem window_closes_with_all_winners_witness:
  "exact_sum [- 5, 0, 5] \<and> sum_list [- 5, 0, 5 :: int] = 0 \<and>
   recorded [\<lparr>playerResults = map number [5, 0, - 5], date = utf16 ''t1''\<rparr>] [[5, 0, - 5]] \<and>
   exact_range 3 [[5, 0, - 5], [- 5, 0, 5]] \<and>
   replay 3 [[5, 0, - 5], [- 5, 0, 5]] = [0, 0, 0] \<and>
   handleSubmitHand ascii_upper (utf16 ''t2'')
     (initialApp\<lparr>step := 3, numPlayers := 3,
        playerNames := [utf16 ''ann'', utf16 ''bob'', utf16 ''al''],
        chips := map number [5, 0, - 5], rowie := map number [5, 0, - 5],
        rowieSettings := \<lparr>startHand = 0, numHands = 2, potAmount = 5, currentHand = 1,
                          isComplete = False\<rparr>,
        hands := [\<lparr>playerResults = map number [5, 0, - 5], date = utf16 ''t1''\<rparr>],
        currentHandIndex := 0, handResults := map number [- 5, 0, 5]\<rparr>) =
   Inr (initialApp\<lparr>step := 3, numPlayers := 3,
        playerNames := [utf16 ''ann'', utf16 ''bob'', utf16 ''al''],
        chips := map number [0, 0, 0], rowie := map number [0, 0, 0],
        rowieSettings := \<lparr>startHand = 0, numHands = 2, potAmount = 5, currentHand = 0,
                          isComplete = True\<rparr>,
        hands := [\<lparr>playerResults = map number [5, 0, - 5], date = utf16 ''t1''\<rparr>,
                  \<lparr>playerResults = map number [- 5, 0, 5], date = utf16 ''t2''\<rparr>],
        currentHandIndex := 1, handResults := replicate 3 (Num 0),
        completedRowies := [\<lparr>rowieNumber = 1, firstHand = 1, endHand = 2, rowieValue = 5,
                              winners = [utf16 ''A'', utf16 ''B'', utf16 ''A'']\<rparr>]\<rparr>)"
proof -
  let ?s = "initialApp\<lparr>step := 3, numPlayers := 3,
        playerNames := [utf16 ''ann'', utf16 ''bob'', utf16 ''al''],
        chips := map number [5, 0, - 5], rowie := map number [5, 0, - 5],
        rowieSettings := \<lparr>startHand = 0, numHands = 2, potAmount = 5, currentHand = 1,
                          isComplete = False\<rparr>,
        hands := [\<lparr>playerResults = map number [5, 0, - 5], date = utf16 ''t1''\<rparr>],
        currentHandIndex := 0, handResults := map number [- 5, 0, 5]\<rparr>"
  let ?d = "[- 5, 0, 5 :: int]"
  let ?ws = "[[5, 0, - 5 :: int]]"
  have 1: "currentHand (rowieSettings ?s) = 1" by simp
  have 2: "length (playerNames ?s) = numPlayers ?s" by simp
  have 3: "handResults ?s = map number ?d" by simp
  have 4: "length ?d = numPlayers ?s" by simp
  have 5: "exact_sum ?d" by code_simp
  have 6: "sum_list ?d = 0" by simp
  have 7: "recorded (drop (startHand (rowieSettings ?s)) (hands ?s)) ?ws"
    by (simp add: recorded_def)
  have 8: "list_all (\<lambda>w. length w = numPlayers ?s) ?ws" by simp
  have 9: "exact_range (numPlayers ?s) (?ws @ [?d])" by code_simp
  have rp: "replay 3 [[5, 0, - 5], [- 5, 0, 5]] = [0, 0, 0]" by code_simp
  from window_closes_with_all_winners [OF 1 2 3 4 5 6 7 8 9, of ascii_upper "utf16 ''t2''"]
  obtain s' r where s': "handleSubmitHand ascii_upper (utf16 ''t2'') ?s = Inr s'"
    "completedRowies s' = completedRowies ?s @ [r]" by blast
  have "handleSubmitHand ascii_upper (utf16 ''t2'') ?s =
   Inr (initialApp\<lparr>step := 3, numPlayers := 3,
        playerNames := [utf16 ''ann'', utf16 ''bob'', utf16 ''al''],
        chips := map number [0, 0, 0], rowie := map number [0, 0, 0],
        rowieSettings := \<lparr>startHand = 0, numHands = 2, potAmount = 5, currentHand = 0,
                          isComplete = True\<rparr>,
        hands := [\<lparr>playerResults = map number [5, 0, - 5], date = utf16 ''t1''\<rparr>,
                  \<lparr>playerResults = map number [- 5, 0, 5], date = utf16 ''t2''\<rparr>],
        currentHandIndex := 1, handResults := replicate 3 (Num 0),
        completedRowies := [\<lparr>rowieNumber = 1, firstHand = 1, endHand = 2, rowieValue = 5,
                              winners = [utf16 ''A'', utf16 ''B'', utf16 ''A'']\<rparr>]\<rparr>)"
    by code_simp
  with s' 5 6 7 9 rp show ?thesis by simp
qed

text \<open>
  Claim C10. Every record that \<open>handleSubmitHand\<close> appends to \<open>completedRowies\<close> is the one
  built in its closing branch, and the winners of that record are, for each player in
  first place, \<^verbatim>\<open>toUpperCase\<close> of the first code unit of the name and nothing more of the
  name. So the record is the same for any other names with the same first code units, and
  winners whose names share a first letter cannot be told apart in it; the first character
  of the empty name is the empty string, which \<^verbatim>\<open>toUpperCase\<close> leaves empty.
\<close>

theorem winners_recorded_as_initials:
  "(handleSubmitHand up now s = Inr s' \<longrightarrow>
      completedRowies s' = completedRowies s \<or>
      (\<exists>r. completedRowies s' = completedRowies s @ [r] \<and>
           complete_rowie up s \<lparr>playerResults = spread (handResults s), date = now\<rparr> = Inr r))
   \<and> (complete_rowie up s newHand = Inr r \<longrightarrow>
        winners r =
          map (\<lambda>idx. up (take 1 (playerNames s ! idx)))
            (first_place (sum_results (replicate (numPlayers s) (Num 0))
               (drop (startHand (rowieSettings s)) (hands s) @ [newHand]))))
   \<and> (up [] = [] \<longrightarrow> up (charAt [] 0) = [])
   \<and> (map (take 1) names = map (take 1) (playerNames s) \<longrightarrow>
        complete_rowie up (s\<lparr>playerNames := names\<rparr>) newHand = complete_rowie up s newHand)"
proof (intro conjI impI)
  assume "handleSubmitHand up now s = Inr s'"
  then show "completedRowies s' = completedRowies s \<or>
      (\<exists>r. completedRowies s' = completedRowies s @ [r] \<and>
           complete_rowie up s \<lparr>playerResults = spread (handResults s), date = now\<rparr> = Inr r)"
    by (rule submit_records)
next
  have c: "charAt name 0 = take 1 name" for name :: jsstring
    by (cases name) (simp_all add: charAt_def)
  assume "complete_rowie up s newHand = Inr r"
  then show "winners r =
          map (\<lambda>idx. up (take 1 (playerNames s ! idx)))
            (first_place (sum_results (replicate (numPlayers s) (Num 0))
               (drop (startHand (rowieSettings s)) (hands s) @ [newHand])))"
    by (auto simp: complete_rowie_def Let_def winner_initials_def c
        split: sum.splits if_splits)
next
  assume "up [] = []"
  then show "up (charAt [] 0) = []" by (simp add: charAt_def)
next
  have c: "charAt name 0 = take 1 name" for name :: jsstring
    by (cases name) (simp_all add: charAt_def)
  assume eq: "map (take 1) names = map (take 1) (playerNames s)"
  then have len: "length names = length (playerNames s)" by (rule map_eq_imp_length_eq)
  have same: "winner_initials up names idxs = winner_initials up (playerNames s) idxs" for idxs
  proof (cases "list_all (\<lambda>idx. idx < length names) idxs")
    case False
    then show ?thesis by (simp add: winner_initials_def len)
  next
    case True
    have "take 1 (names ! idx) = take 1 (playerNames s ! idx)" if "idx \<in> set idxs" for idx
    proof -
      from True that have i: "idx < length names" by (simp add: list_all_iff)
      have "map (take 1) names ! idx = map (take 1) (playerNames s) ! idx"
        by (simp only: eq)
      with i len show ?thesis by simp
    qed
    then show ?thesis using True by (simp add: winner_initials_def len c)
  qed
  show "complete_rowie up (s\<lparr>playerNames := names\<rparr>) newHand = complete_rowie up s newHand"
    by (simp add: complete_rowie_def same split: sum.splits)
qed

theorem winners_recorded_as_initials_witness:
  "handleSubmitHand ascii_upper (utf16 ''t2'')
     (initialApp\<lparr>step := 3, numPlayers := 3,
        playerNames := [utf16 ''ann'', utf16 ''bob'', utf16 ''al''],
        chips := map number [5, 0, - 5], rowie := map number [5, 0, - 5],
        rowieSettings := \<lparr>startHand = 0, numHands = 2, potAmount = 5, currentHand = 1,
                          isComplete = False\<rparr>,
        hands := [\<lparr>playerResults = map number [5, 0, - 5], date = utf16 ''t1''\<rparr>],
        currentHandIndex := 0, handResults := map number [- 5, 0, 5]\<rparr>) =
   Inr (initialApp\<lparr>step := 3, numPlayers := 3,
        playerNames := [utf16 ''ann'', utf16 ''bob'', utf16 ''al''],
        chips := map number [0, 0, 0], rowie := map number [0, 0, 0],
        rowieSettings := \<lparr>startHand = 0, numHands = 2, potAmount = 5, currentHand = 0,
                          isComplete = True\<rparr>,
        hands := [\<lparr>playerResults = map number [5, 0, - 5], date = utf16 ''t1''\<rparr>,
                  \<lparr>playerResults = map number [- 5, 0, 5], date = utf16 ''t2''\<rparr>],
        currentHandIndex := 1, handResults := replicate 3 (Num 0),
        completedRowies := [\<lparr>rowieNumber = 1, firstHand = 1, endHand = 2, rowieValue = 5,
                              winners = [utf16 ''A'', utf16 ''B'', utf16 ''A'']\<rparr>]\<rparr>)
   \<and> complete_rowie ascii_upper
     (initialApp\<lparr>step := 3, numPlayers := 3,
        playerNames := [utf16 ''ann'', utf16 ''bob'', utf16 ''al''],
        chips := map number [5, 0, - 5], rowie := map number [5, 0, - 5],
        rowieSettings := \<lparr>startHand = 0, numHands = 2, potAmount = 5, currentHand = 1,
                          isComplete = False\<rparr>,
        hands := [\<lparr>playerResults = map number [5, 0, - 5], date = utf16 ''t1''\<rparr>],
        currentHandIndex := 0, handResults := map number [- 5, 0, 5]\<rparr>)
     \<lparr>playerResults = map number [- 5, 0, 5], date = utf16 ''t2''\<rparr> =
   Inr \<lparr>rowieNumber = 1, firstHand = 1, endHand = 2, rowieValue = 5,
        winners = [utf16 ''A'', utf16 ''B'', utf16 ''A'']\<rparr>
   \<and> ascii_upper [] = [] \<and> ascii_upper (charAt [] 0) = []
   \<and> map (take 1) [utf16 ''axel'', utf16 ''b'', utf16 ''a''] =
       map (take 1) [utf16 ''ann'', utf16 ''bob'', utf16 ''al'']
   \<and> complete_rowie ascii_upper
     (initialApp\<lparr>step := 3, numPlayers := 3,
        playerNames := [utf16 ''axel'', utf16 ''b'', utf16 ''a''],
        chips := map number [5, 0, - 5], rowie := map number [5, 0, - 5],
        rowieSettings := \<lparr>startHand = 0, numHands = 2, potAmount = 5, currentHand = 1,
                          isComplete = False\<rparr>,
        hands := [\<lparr>playerResults = map number [5, 0, - 5], date = utf16 ''t1''\<rparr>],
        currentHandIndex := 0, handResults := map number [- 5, 0, 5]\<rparr>)
     \<lparr>playerResults = map number [- 5, 0, 5], date = utf16 ''t2''\<rparr> =
   Inr \<lparr>rowieNumber = 1, firstHand = 1, endHand = 2, rowieValue = 5,
        winners = [utf16 ''A'', utf16 ''B'', utf16 ''A'']\<rparr>"
proof -
  let ?s = "initialApp\<lparr>step := 3, numPlayers := 3,
        playerNames := [utf16 ''ann'', utf16 ''bob'', utf16 ''al''],
        chips := map number [5, 0, - 5], rowie := map number [5, 0, - 5],
        rowieSettings := \<lparr>startHand = 0, numHands = 2, potAmount = 5, currentHand = 1,
                          isComplete = False\<rparr>,
        hands := [\<lparr>playerResults = map number [5, 0, - 5], date = utf16 ''t1''\<rparr>],
        currentHandIndex := 0, handResults := map number [- 5, 0, 5]\<rparr>"
  let ?s' = "initialApp\<lparr>step := 3, numPlayers := 3,
        playerNames := [utf16 ''ann'', utf16 ''bob'', utf16 ''al''],
        chips := map number [0, 0, 0], rowie := map number [0, 0, 0],
        rowieSettings := \<lparr>startHand = 0, numHands = 2, potAmount = 5, currentHand = 0,
                          isComplete = True\<rparr>,
        hands := [\<lparr>playerResults = map number [5, 0, - 5], date = utf16 ''t1''\<rparr>,
                  \<lparr>playerResults = map number [- 5, 0, 5], date = utf16 ''t2''\<rparr>],
        currentHandIndex := 1, handResults := replicate 3 (Num 0),
        completedRowies := [\<lparr>rowieNumber = 1, firstHand = 1, endHand = 2, rowieValue = 5,
                              winners = [utf16 ''A'', utf16 ''B'', utf16 ''A'']\<rparr>]\<rparr>"
  let ?h = "\<lparr>playerResults = map number [- 5, 0, 5], date = utf16 ''t2''\<rparr>"
  let ?r = "\<lparr>rowieNumber = 1, firstHand = 1, endHand = 2, rowieValue = 5,
        winners = [utf16 ''A'', utf16 ''B'', utf16 ''A'']\<rparr>"
  let ?names = "[utf16 ''axel'', utf16 ''b'', utf16 ''a'']"
  have 0: "handleSubmitHand ascii_upper (utf16 ''t2'') ?s = Inr ?s'" by code_simp
  have 1: "complete_rowie ascii_upper ?s ?h = Inr ?r" by code_simp
  have 2: "map (take 1) ?names = map (take 1) [utf16 ''ann'', utf16 ''bob'', utf16 ''al'']"
    by code_simp
  then have same_initials: "map (take 1) ?names = map (take 1) (playerNames ?s)" by simp
  have 3: "ascii_upper [] = []" by (simp add: ascii_upper_def)
  note claim = winners_recorded_as_initials [of ascii_upper "utf16 ''t2''" ?s ?s' ?h ?r ?names]
  from claim have "ascii_upper [] = [] \<longrightarrow> ascii_upper (charAt [] 0) = []"
    by (elim conjE)
  with 3 have 4: "ascii_upper (charAt [] 0) = []" by (rule rev_mp)
  from claim have "map (take 1) ?names = map (take 1) (playerNames ?s) \<longrightarrow>
      complete_rowie ascii_upper (?s\<lparr>playerNames := ?names\<rparr>) ?h =
        complete_rowie ascii_upper ?s ?h"
    by (elim conjE)
  with same_initials have "complete_rowie ascii_upper (?s\<lparr>playerNames := ?names\<rparr>) ?h =
        complete_rowie ascii_upper ?s ?h" by (rule rev_mp)
  then have "complete_rowie ascii_upper (?s\<lparr>playerNames := ?names\<rparr>) ?h = Inr ?r"
    by (simp only: 1)
  then have 5: "complete_rowie ascii_upper
     (initialApp\<lparr>step := 3, numPlayers := 3,
        playerNames := [utf16 ''axel'', utf16 ''b'', utf16 ''a''],
        chips := map number [5, 0, - 5], rowie := map number [5, 0, - 5],
        rowieSettings := \<lparr>startHand = 0, numHands = 2, potAmount = 5, currentHand = 1,
                          isComplete = False\<rparr>,
        hands := [\<lparr>playerResults = map number [5, 0, - 5], date = utf16 ''t1''\<rparr>],
        currentHandIndex := 0, handResults := map number [- 5, 0, 5]\<rparr>) ?h = Inr ?r"
    by (simp add: initialApp_def)
  from 0 1 3 4 2 5 show ?thesis by (intro conjI)
qed


section \<open>Proportional pot\<close>

lemma rowie_fold_unchanged:
  "list_all (\<lambda>(points, idx). points \<le> (0::int)) zs \<Longrightarrow>
   foldl (\<lambda>payouts (points, idx).
            if 0 < points then array_set Undefined payouts idx (f points) else payouts)
     a zs = a"
  by (induction zs arbitrary: a) auto

text \<open>
  Claim C4. When no entry of the points vector is positive, \<open>calculateRowiePayouts\<close>
  returns 0 for every player, for any pot amount: the quotient is computed only under the
  test \<open>points > 0\<close>, so no division takes place and no infinity or \<open>NaN\<close> appears.
\<close>

theorem rowie_payouts_without_positive_points:
  "list_all (\<lambda>points. points \<le> 0) rowiePoints \<Longrightarrow>
   calculateRowiePayouts n pot rowiePoints = replicate n (Num 0)"
proof -
  assume a: "list_all (\<lambda>points. points \<le> 0) rowiePoints"
  have "list_all (\<lambda>(points, idx). points \<le> 0) (zip rowiePoints [0..<length rowiePoints])"
    using a by (auto simp: list_all_iff dest: set_zip_leftD)
  then show ?thesis
    by (simp add: calculateRowiePayouts_def Let_def rowie_fold_unchanged)
qed

theorem rowie_payouts_without_positive_points_witness:
  "list_all (\<lambda>points. points \<le> 0) [- 4, 0, - 1 :: int] \<and>
   calculateRowiePayouts 3 5 [- 4, 0, - 1] = [Num 0, Num 0, Num 0]"
proof -
  have h: "list_all (\<lambda>points. points \<le> 0) [- 4, 0, - 1 :: int]" by simp
  from rowie_payouts_without_positive_points [OF h, of 3 5] h
  show ?thesis by (simp add: numeral_3_eq_3)
qed

text \<open>
  Claim C1, the code at the example of the claim. The divisor \<open>totalPoints\<close> is the sum
  of all entries, not of the positive ones; for the window points 15, -15, 0, 0 it is 0,
  and the payout of the first player is \<open>Math.round(15 / 0 * 20)\<close>, which is infinite,
  where the claim expects 20.
\<close>

theorem rowie_example_pays_infinity:
  "calculateRowiePayouts 4 5 [15, - 15, 0, 0] = [PosInf, Num 0, Num 0, Num 0]"
  by code_simp


end
